theory Spec2Isabelle
  imports
    Complex_Main
    "HOL-Library.Word"
    "HOL-Library.Finite_Map"
    "HOL-Library.Char_ord"
    "HOL-Library.List_Lexorder"
begin

section \<open>The span-metrics processor of Tempo's metrics generator\<close>

text \<open>
  This theory embeds \<^verbatim>\<open>modules/generator/processor/spanmetrics/spanmetrics.go\<close>.

  Conventions of the embedding:
  \<^item> a Go \<^verbatim>\<open>map[string]T\<close> is a finite map \<open>(string, T) fmap\<close>; reading a missing key
    gives the zero value of \<open>T\<close> (\<open>mapIndex\<close>), as in Go;
  \<^item> a \<^verbatim>\<open>for ... range m\<close> loop over a map visits the keys in an order Go leaves open:
    every such loop takes the order as a function from the key set to a list of keys, and the
    theorems hold for every function that enumerates each key set without repetition;
  \<^item> \<^verbatim>\<open>float64\<close> values are modelled by the real numbers they denote. The conversion from
    \<^verbatim>\<open>uint64\<close>, the division and the addition to a latency sum round to the nearest
    \<^verbatim>\<open>float64\<close>, ties to even (\<open>round64\<close>). Incrementing a counter is exact: counters are
    whole numbers, which \<^verbatim>\<open>float64\<close> represents exactly up to \<open>2^53\<close>. Overflow to infinity
    does not arise below \<open>2^979\<close> spans and is not modelled;
  \<^item> \<^verbatim>\<open>uint64\<close> timestamps are \<open>64 word\<close>, so their subtraction wraps around;
  \<^item> the staleness counters (Go \<^verbatim>\<open>int\<close>) are \<open>int\<close>: they stay between 0 and 3 in every
    reachable state (\<open>reachable_staleness_bounds\<close>), far from the machine bounds;
  \<^item> a run-time panic (index out of range) is the result \<open>None\<close>;
  \<^item> the mutex makes each span update and each collection atomic, so the processor is a
    state machine whose steps are single span updates and collections.
\<close>

subsection \<open>Spans and resources\<close>

text \<open>
  Modelled from the spec: the protobuf message types of \<^verbatim>\<open>pkg/tempopb\<close> (span, status,
  resource, attribute values) and the \<^verbatim>\<open>String\<close> methods of their enumerations are
  generated code that is not among the embedded sources. Section 3 of the specification gives a span an
  operation name, a kind, a status code and start/end timestamps in nanoseconds; the
  enumeration names are those of the OpenTelemetry protocol.
\<close>

datatype spanKind =
    SPAN_KIND_UNSPECIFIED
  | SPAN_KIND_INTERNAL
  | SPAN_KIND_SERVER
  | SPAN_KIND_CLIENT
  | SPAN_KIND_PRODUCER
  | SPAN_KIND_CONSUMER

fun SpanKind_String :: "spanKind \<Rightarrow> string" where
  "SpanKind_String SPAN_KIND_UNSPECIFIED = ''SPAN_KIND_UNSPECIFIED''"
| "SpanKind_String SPAN_KIND_INTERNAL = ''SPAN_KIND_INTERNAL''"
| "SpanKind_String SPAN_KIND_SERVER = ''SPAN_KIND_SERVER''"
| "SpanKind_String SPAN_KIND_CLIENT = ''SPAN_KIND_CLIENT''"
| "SpanKind_String SPAN_KIND_PRODUCER = ''SPAN_KIND_PRODUCER''"
| "SpanKind_String SPAN_KIND_CONSUMER = ''SPAN_KIND_CONSUMER''"

datatype statusCode = STATUS_CODE_UNSET | STATUS_CODE_OK | STATUS_CODE_ERROR

fun StatusCode_String :: "statusCode \<Rightarrow> string" where
  "StatusCode_String STATUS_CODE_UNSET = ''STATUS_CODE_UNSET''"
| "StatusCode_String STATUS_CODE_OK = ''STATUS_CODE_OK''"
| "StatusCode_String STATUS_CODE_ERROR = ''STATUS_CODE_ERROR''"

text \<open>
  The status of a span is a message of its own, with a status message beside the status
  code. A span always carries one here: the source reads \<^verbatim>\<open>span.Status.Code\<close> without a check.
\<close>

record status =
  Message :: string
  Code :: statusCode

text \<open>
  Modelled from the spec: the \<^verbatim>\<open>String\<close> method of the generated status message, which
  \<^verbatim>\<open>buildKey\<close> calls when it formats \<^verbatim>\<open>span.Status\<close> with \<^verbatim>\<open>%s\<close>, is not among the embedded
  sources. The specification names the status code as the dimension of the key; the source
  formats the whole status, so the text holds the status message too. It is taken to be the
  compact protobuf text of the message: each field that differs from its default as
  \<open>name:value\<close> followed by a space, the message in double quotes (escaping is left out).
  The theorem on keys is proved for every \<^verbatim>\<open>String\<close> method (\<open>buildKeyWith\<close>).
\<close>

definition Status_String :: "status \<Rightarrow> string" where
  "Status_String st =
     (if Message st = [] then [] else ''message:'' @ [CHR 0x22] @ Message st @ [CHR 0x22] @ '' '') @
     (if Code st = STATUS_CODE_UNSET then []
      else ''code:'' @ StatusCode_String (Code st) @ '' '')"

record span =
  Name :: string
  Kind :: spanKind
  Status :: status
  StartTimeUnixNano :: "64 word"
  EndTimeUnixNano :: "64 word"

datatype anyValue =
    StringValue string
  | BoolValue bool
  | IntValue int
  | DoubleValue real
  | NoValue

fun GetStringValue :: "anyValue \<Rightarrow> string" where
  "GetStringValue (StringValue s) = s"
| "GetStringValue _ = ''''"

record keyValue =
  Key :: string
  Value :: anyValue

record resource =
  Attributes :: "keyValue list"

record instrumentationLibrarySpans =
  Spans :: "span list"

record resourceSpans =
  Resource :: resource
  InstrumentationLibrarySpans :: "instrumentationLibrarySpans list"

record pushSpansRequest =
  Batches :: "resourceSpans list"

subsection \<open>Constants\<close>

definition processorName :: string where
  "processorName = ''spanmetrics''"

definition callsMetric :: string where
  "callsMetric = ''calls_total''"

text \<open>The constants \<^verbatim>\<open>latencyCount\<close>, \<^verbatim>\<open>latencySum\<close> and \<^verbatim>\<open>latencyBucket\<close> of the source share
  their names with fields of the processor; here they carry the suffix \<open>Metric\<close>.\<close>

definition latencyCountMetric :: string where
  "latencyCountMetric = ''latency_count''"

definition latencySumMetric :: string where
  "latencySumMetric = ''latency_sum''"

definition latencyBucketMetric :: string where
  "latencyBucketMetric = ''latency_bucket''"

text \<open>\<^verbatim>\<open>semconv.AttributeServiceName\<close>\<close>

definition AttributeServiceName :: string where
  "AttributeServiceName = ''service.name''"

subsection \<open>The processor\<close>

type_synonym label = "string \<times> string"
type_synonym labels = "label list"

record gauge =
  tenantLabel :: string
  gaugeValue :: real

definition Set_gauge :: "gauge \<Rightarrow> real \<Rightarrow> gauge" where
  "Set_gauge g v = g\<lparr>gaugeValue := v\<rparr>"

record processor =
  namespace :: string
  calls :: "(string, real) fmap"
  latencyCount :: "(string, real) fmap"
  latencySum :: "(string, real) fmap"
  latencyBucketCounts :: "(string, real list) fmap"
  latencyBuckets :: "real list"
  cache :: "(string, labels) fmap"
  stalenessCounter :: "(string, int) fmap"
  metricActiveSeries :: gauge

definition New :: "string \<Rightarrow> processor" where
  "New tenant =
     \<lparr> namespace = ''tempo'',
       calls = fmempty,
       latencyCount = fmempty,
       latencySum = fmempty,
       latencyBucketCounts = fmempty,
       latencyBuckets = [1, 10, 50, 100, 500],
       cache = fmempty,
       stalenessCounter = fmempty,
       metricActiveSeries = \<lparr> tenantLabel = tenant, gaugeValue = 0 \<rparr> \<rparr>"

text \<open>Reading a Go map: a missing key reads as the zero value.\<close>

definition mapIndex :: "(string, 'a::zero) fmap \<Rightarrow> string \<Rightarrow> 'a" where
  "mapIndex m k = (case fmlookup m k of None \<Rightarrow> 0 | Some v \<Rightarrow> v)"

text \<open>Reading a map of slices: a missing key reads as the nil slice.\<close>

definition sliceIndex :: "(string, 'a list) fmap \<Rightarrow> string \<Rightarrow> 'a list" where
  "sliceIndex m k = (case fmlookup m k of None \<Rightarrow> [] | Some v \<Rightarrow> v)"

subsection \<open>Keys and labels\<close>

text \<open>
  \<^verbatim>\<open>fmt.Sprintf("%s_%s_%s_%s", svcName, span.Name, span.Kind, span.Status)\<close>, with the
  \<^verbatim>\<open>String\<close> method of the status as a parameter, and with the modelled one.
\<close>

definition buildKeyWith :: "(status \<Rightarrow> string) \<Rightarrow> string \<Rightarrow> span \<Rightarrow> string" where
  "buildKeyWith statusString svcName sp =
     svcName @ ''_'' @ Name sp @ ''_'' @ SpanKind_String (Kind sp) @ ''_'' @
       statusString (Status sp)"

definition buildKey :: "string \<Rightarrow> span \<Rightarrow> string" where
  "buildKey svcName sp = buildKeyWith Status_String svcName sp"

definition cacheLabels :: "processor \<Rightarrow> string \<Rightarrow> string \<Rightarrow> span \<Rightarrow> processor" where
  "cacheLabels p key svcName sp =
     p\<lparr>cache := fmupd key
         [(''service'', svcName),
          (''span_name'', Name sp),
          (''span_kind'', SpanKind_String (Kind sp)),
          (''span_status'', StatusCode_String (Code (Status sp)))]
         (cache p)\<rparr>"

text \<open>
  \<^verbatim>\<open>getLabels\<close> appends to the cached slice. The cached slice is a literal of four labels, its
  capacity is its length, so \<^verbatim>\<open>append\<close> copies and the cache is not modified.
\<close>

definition getLabels :: "processor \<Rightarrow> string \<Rightarrow> string \<Rightarrow> labels" where
  "getLabels p key metricName =
     sliceIndex (cache p) key @ [(''__name__'', namespace p @ ''_'' @ metricName)]"

text \<open>The loop of \<^verbatim>\<open>getServiceName\<close> over the attributes: the first attribute with the
  service-name key decides.\<close>

fun getServiceName_loop :: "keyValue list \<Rightarrow> string" where
  "getServiceName_loop [] = ''''"
| "getServiceName_loop (attr # attrs) =
     (if Key attr = AttributeServiceName then GetStringValue (Value attr)
      else getServiceName_loop attrs)"

definition getServiceName :: "resource \<Rightarrow> string" where
  "getServiceName rs = getServiceName_loop (Attributes rs)"

subsection \<open>Ingestion\<close>

text \<open>
  \<^verbatim>\<open>sort.Search\<close> of the Go standard library, the binary search behind
  \<^verbatim>\<open>sort.SearchFloat64s\<close>: the loop \<^verbatim>\<open>for i < j { h := int(uint(i+j) >> 1); if !f(h) { i = h + 1 }
  else { j = h } }; return i\<close>, started at \<open>i = 0\<close>, \<open>j = n\<close>.
\<close>

function Search_loop :: "(nat \<Rightarrow> bool) \<Rightarrow> nat \<Rightarrow> nat \<Rightarrow> nat" where
  "Search_loop f i j =
     (if i < j then
        (let h = (i + j) div 2
         in if \<not> f h then Search_loop f (h + 1) j else Search_loop f i h)
      else i)"
  by pat_completeness auto
termination
  by (relation "measure (\<lambda>(f, i, j). j - i)") auto

declare Search_loop.simps [simp del]

definition Search :: "nat \<Rightarrow> (nat \<Rightarrow> bool) \<Rightarrow> nat" where
  "Search n f = Search_loop f 0 n"

definition SearchFloat64s :: "real list \<Rightarrow> real \<Rightarrow> nat" where
  "SearchFloat64s a x = Search (length a) (\<lambda>i. a ! i \<ge> x)"

text \<open>
  The loop \<^verbatim>\<open>for i := 0; i < idx; i++ { p.latencyBucketCounts[key][i]++ }\<close> on the slice
  of one key; an index beyond the slice panics.
\<close>

function incrementBuckets :: "real list \<Rightarrow> nat \<Rightarrow> nat \<Rightarrow> real list option" where
  "incrementBuckets counts i idx =
     (if i < idx then
        (if i < length counts then incrementBuckets (counts[i := counts ! i + 1]) (i + 1) idx
         else None)
      else Some counts)"
  by pat_completeness auto
termination
  by (relation "measure (\<lambda>(counts, i, idx). idx - i)") auto

declare incrementBuckets.simps [simp del]

text \<open>
  \<^verbatim>\<open>float64\<close> arithmetic: the result of an operation is the exact result rounded to the
  nearest \<^verbatim>\<open>float64\<close>, ties to the even significand. A \<^verbatim>\<open>float64\<close> has 53 significant bits
  and exponents from \<open>-1022\<close> on; \<open>ulp x\<close> is the distance of the \<^verbatim>\<open>float64\<close> values around
  \<open>x\<close>.
\<close>

definition roundHalfEven :: "real \<Rightarrow> int" where
  "roundHalfEven r =
     (if r - of_int \<lfloor>r\<rfloor> < 1 / 2 then \<lfloor>r\<rfloor>
      else if r - of_int \<lfloor>r\<rfloor> > 1 / 2 then \<lfloor>r\<rfloor> + 1
      else if even \<lfloor>r\<rfloor> then \<lfloor>r\<rfloor> else \<lfloor>r\<rfloor> + 1)"

definition ulp :: "real \<Rightarrow> real" where
  "ulp x = 2 powr (of_int (max (- 1022) \<lfloor>log 2 \<bar>x\<bar>\<rfloor>) - 52)"

definition round64 :: "real \<Rightarrow> real" where
  "round64 x = (if x = 0 then 0 else of_int (roundHalfEven (x / ulp x)) * ulp x)"

definition float64_add :: "real \<Rightarrow> real \<Rightarrow> real" where
  "float64_add x y = round64 (x + y)"

definition float64_div :: "real \<Rightarrow> real \<Rightarrow> real" where
  "float64_div x y = round64 (x / y)"

definition float64_of_uint64 :: "64 word \<Rightarrow> real" where
  "float64_of_uint64 n = round64 (real (unat n))"

definition aggregateLatencyMetrics :: "processor \<Rightarrow> string \<Rightarrow> real \<Rightarrow> processor option" where
  "aggregateLatencyMetrics p key latencyMS =
     (let p1 = (if key |\<notin>| fmdom (latencyBucketCounts p)
                then p\<lparr>latencyBucketCounts :=
                       fmupd key (replicate (length (latencyBuckets p) + 1) 0)
                         (latencyBucketCounts p)\<rparr>
                else p);
          p2 = p1\<lparr>latencyCount :=
                    fmupd key (mapIndex (latencyCount p1) key + 1) (latencyCount p1)\<rparr>;
          p3 = p2\<lparr>latencySum :=
                    fmupd key (float64_add (mapIndex (latencySum p2) key) latencyMS)
                      (latencySum p2)\<rparr>;
          idx = SearchFloat64s (latencyBuckets p3) latencyMS
      in case incrementBuckets (sliceIndex (latencyBucketCounts p3) key) 0 idx of
           None \<Rightarrow> None
         | Some counts \<Rightarrow>
             Some (p3\<lparr>latencyBucketCounts := fmupd key counts (latencyBucketCounts p3)\<rparr>))"

text \<open>
  \<^verbatim>\<open>float64(span.GetEndTimeUnixNano()-span.GetStartTimeUnixNano()) /
  float64(time.Millisecond.Nanoseconds())\<close>: the timestamps are \<^verbatim>\<open>fixed64\<close> fields of the
  OpenTelemetry protocol, \<^verbatim>\<open>uint64\<close> in Go, so the difference is taken in \<^verbatim>\<open>uint64\<close> and
  wraps around when a span ends before it starts. The conversion and the division round.
\<close>

definition latencyMS :: "span \<Rightarrow> real" where
  "latencyMS sp =
     float64_div (float64_of_uint64 (EndTimeUnixNano sp - StartTimeUnixNano sp)) 1000000"

definition aggregateMetricsForSpan :: "processor \<Rightarrow> string \<Rightarrow> span \<Rightarrow> processor option" where
  "aggregateMetricsForSpan p svcName sp =
     (let key = buildKey svcName sp;
          p1 = cacheLabels p key svcName sp;
          p2 = p1\<lparr>stalenessCounter := fmupd key 0 (stalenessCounter p1)\<rparr>;
          p3 = p2\<lparr>calls := fmupd key (mapIndex (calls p2) key + 1) (calls p2)\<rparr>
      in aggregateLatencyMetrics p3 key (latencyMS sp))"

text \<open>A \<^verbatim>\<open>for ... range\<close> loop over a slice whose body may panic.\<close>

fun forEach :: "('s \<Rightarrow> 'a \<Rightarrow> 's option) \<Rightarrow> 's \<Rightarrow> 'a list \<Rightarrow> 's option" where
  "forEach body s [] = Some s"
| "forEach body s (x # xs) =
     (case body s x of None \<Rightarrow> None | Some s' \<Rightarrow> forEach body s' xs)"

text \<open>The body of the outer loop of \<^verbatim>\<open>aggregateMetrics\<close>, for one resource.\<close>

definition aggregateResourceSpans :: "processor \<Rightarrow> resourceSpans \<Rightarrow> processor option" where
  "aggregateResourceSpans p rs =
     (let svcName = getServiceName (Resource rs)
      in if svcName = '''' then Some p
         else forEach
                (\<lambda>p1 ils. forEach (\<lambda>p2 sp. aggregateMetricsForSpan p2 svcName sp) p1 (Spans ils))
                p (InstrumentationLibrarySpans rs))"

definition aggregateMetrics :: "processor \<Rightarrow> resourceSpans list \<Rightarrow> processor option" where
  "aggregateMetrics p resourceSpans = forEach aggregateResourceSpans p resourceSpans"

datatype error = Error string

text \<open>\<^verbatim>\<open>PushSpans\<close> returns the processor and the error \<^verbatim>\<open>nil\<close>.\<close>

definition PushSpans :: "processor \<Rightarrow> pushSpansRequest \<Rightarrow> (processor \<times> error option) option" where
  "PushSpans p req =
     (case aggregateMetrics p (Batches req) of
        None \<Rightarrow> None
      | Some p' \<Rightarrow> Some (p', None))"

subsection \<open>Collection\<close>

text \<open>
  The sink. \<^verbatim>\<open>storage.Appender\<close> is an interface outside the processor: whether a call of
  \<^verbatim>\<open>Append\<close> fails is a function of the calls made so far and of the sample. The state of
  the sink is the list of all \<^verbatim>\<open>Append\<close> calls, in order, the failed one included.
\<close>

record sample =
  ref :: "64 word"
  l :: labels
  t :: "64 word"
  v :: real

type_synonym appender = "sample list \<Rightarrow> sample \<Rightarrow> error option"

definition Append :: "appender \<Rightarrow> sample list \<Rightarrow> sample \<Rightarrow> sample list \<times> error option" where
  "Append appender out s = (out @ [s], appender out s)"

text \<open>The order in which a \<^verbatim>\<open>range\<close> loop visits the keys of a map.\<close>

type_synonym rangeOrder = "string fset \<Rightarrow> string list"

definition validOrder :: "rangeOrder \<Rightarrow> bool" where
  "validOrder ord = (\<forall>S. distinct (ord S) \<and> fset_of_list (ord S) = S)"

text \<open>The body of the staleness loop of \<^verbatim>\<open>CollectMetrics\<close> for one key.\<close>

definition sweepKey :: "processor \<Rightarrow> string \<Rightarrow> processor" where
  "sweepKey p key =
     (let p1 = p\<lparr>stalenessCounter :=
                   fmupd key (mapIndex (stalenessCounter p) key + 1) (stalenessCounter p)\<rparr>
      in if mapIndex (stalenessCounter p1) key \<ge> 4
         then p1\<lparr>stalenessCounter := fmdrop key (stalenessCounter p1),
                 calls := fmdrop key (calls p1),
                 latencyCount := fmdrop key (latencyCount p1),
                 latencySum := fmdrop key (latencySum p1),
                 latencyBucketCounts := fmdrop key (latencyBucketCounts p1),
                 cache := fmdrop key (cache p1)\<rparr>
         else p1)"

definition sweep :: "rangeOrder \<Rightarrow> processor \<Rightarrow> processor" where
  "sweep ord p = foldl sweepKey p (ord (fmdom (stalenessCounter p)))"

fun collectCalls_loop ::
  "processor \<Rightarrow> appender \<Rightarrow> 64 word \<Rightarrow> string list \<Rightarrow> sample list \<Rightarrow> sample list \<times> error option"
where
  "collectCalls_loop p appender timestampMs [] out = (out, None)"
| "collectCalls_loop p appender timestampMs (key # keys) out =
     (let lbls = getLabels p key callsMetric;
          count = mapIndex (calls p) key
      in case Append appender out \<lparr>ref = 0, l = lbls, t = timestampMs, v = count\<rparr> of
           (out', Some err) \<Rightarrow> (out', Some err)
         | (out', None) \<Rightarrow> collectCalls_loop p appender timestampMs keys out')"

definition collectCalls ::
  "processor \<Rightarrow> rangeOrder \<Rightarrow> appender \<Rightarrow> 64 word \<Rightarrow> sample list \<Rightarrow> sample list \<times> error option"
where
  "collectCalls p ord appender timestampMs out =
     collectCalls_loop p appender timestampMs (ord (fmdom (calls p))) out"

text \<open>\<^verbatim>\<open>int(x)\<close> of a \<^verbatim>\<open>float64\<close> truncates towards zero.\<close>

definition float64_to_int :: "real \<Rightarrow> int" where
  "float64_to_int x = (if 0 \<le> x then \<lfloor>x\<rfloor> else \<lceil>x\<rceil>)"

text \<open>\<^verbatim>\<open>strconv.Itoa\<close>: the decimal digits of an integer.\<close>

definition digit :: "nat \<Rightarrow> char" where
  "digit d = char_of (48 + d)"

function natDigits :: "nat \<Rightarrow> string" where
  "natDigits n = (if n < 10 then [digit n] else natDigits (n div 10) @ [digit (n mod 10)])"
  by pat_completeness auto
termination
  by (relation "measure (\<lambda>n. n)") auto

declare natDigits.simps [simp del]

definition Itoa :: "int \<Rightarrow> string" where
  "Itoa i = (if i < 0 then CHR ''-'' # natDigits (nat (- i)) else natDigits (nat i))"

text \<open>
  The bucket loop \<^verbatim>\<open>for i, count := range p.latencyBucketCounts[key]\<close> of
  \<^verbatim>\<open>collectLatencyMetrics\<close>, over the remaining counts from index \<open>i\<close> on. Reading
  \<^verbatim>\<open>p.latencyBuckets[i]\<close> beyond the boundaries panics.
\<close>

fun collectBuckets_loop ::
  "processor \<Rightarrow> appender \<Rightarrow> 64 word \<Rightarrow> string \<Rightarrow> nat \<Rightarrow> real list \<Rightarrow> sample list
    \<Rightarrow> (sample list \<times> error option) option"
where
  "collectBuckets_loop p appender timestampMs key i [] out = Some (out, None)"
| "collectBuckets_loop p appender timestampMs key i (count # counts) out =
     (if i = length (latencyBuckets p) \<or> i < length (latencyBuckets p) then
        (let lbls =
               (if i = length (latencyBuckets p)
                then getLabels p key latencyBucketMetric @ [(''le'', ''+Inf'')]
                else getLabels p key latencyBucketMetric @
                       [(''le'', Itoa (float64_to_int (latencyBuckets p ! i)))])
         in case Append appender out \<lparr>ref = 0, l = lbls, t = timestampMs, v = count\<rparr> of
              (out', Some err) \<Rightarrow> Some (out', Some err)
            | (out', None) \<Rightarrow> collectBuckets_loop p appender timestampMs key (i + 1) counts out')
      else None)"

fun collectLatencyMetrics_loop ::
  "processor \<Rightarrow> appender \<Rightarrow> 64 word \<Rightarrow> string list \<Rightarrow> sample list
    \<Rightarrow> (sample list \<times> error option) option"
where
  "collectLatencyMetrics_loop p appender timestampMs [] out = Some (out, None)"
| "collectLatencyMetrics_loop p appender timestampMs (key # keys) out =
     (case Append appender out
             \<lparr>ref = 0, l = getLabels p key latencyCountMetric, t = timestampMs,
              v = mapIndex (latencyCount p) key\<rparr> of
        (out1, Some err) \<Rightarrow> Some (out1, Some err)
      | (out1, None) \<Rightarrow>
          (case Append appender out1
                  \<lparr>ref = 0, l = getLabels p key latencySumMetric, t = timestampMs,
                   v = mapIndex (latencySum p) key\<rparr> of
             (out2, Some err) \<Rightarrow> Some (out2, Some err)
           | (out2, None) \<Rightarrow>
               (case collectBuckets_loop p appender timestampMs key 0
                       (sliceIndex (latencyBucketCounts p) key) out2 of
                  None \<Rightarrow> None
                | Some (out3, Some err) \<Rightarrow> Some (out3, Some err)
                | Some (out3, None) \<Rightarrow>
                    collectLatencyMetrics_loop p appender timestampMs keys out3)))"

definition collectLatencyMetrics ::
  "processor \<Rightarrow> rangeOrder \<Rightarrow> appender \<Rightarrow> 64 word \<Rightarrow> sample list
    \<Rightarrow> (sample list \<times> error option) option"
where
  "collectLatencyMetrics p ord appender timestampMs out =
     collectLatencyMetrics_loop p appender timestampMs (ord (fmdom (latencyCount p))) out"

text \<open>
  \<^verbatim>\<open>CollectMetrics\<close>. The three \<^verbatim>\<open>range\<close> loops (staleness counters, calls, latency counts)
  each have their own order; \<open>timestampMs\<close> is the reading of the clock. The tracing span of
  the function has no effect on the processor and is left out.
\<close>

record rangeOrders =
  staleOrder :: rangeOrder
  callsOrder :: rangeOrder
  latencyOrder :: rangeOrder

definition validOrders :: "rangeOrders \<Rightarrow> bool" where
  "validOrders ords =
     (validOrder (staleOrder ords) \<and> validOrder (callsOrder ords) \<and> validOrder (latencyOrder ords))"

definition CollectMetrics ::
  "processor \<Rightarrow> rangeOrders \<Rightarrow> appender \<Rightarrow> 64 word \<Rightarrow> sample list
    \<Rightarrow> (processor \<times> sample list \<times> error option) option"
where
  "CollectMetrics p ords appender timestampMs out =
     (let p1 = sweep (staleOrder ords) p;
          p2 = p1\<lparr>metricActiveSeries :=
                    Set_gauge (metricActiveSeries p1) (real (fcard (fmdom (calls p1))))\<rparr>
      in case collectCalls p2 (callsOrder ords) appender timestampMs out of
           (out1, Some err) \<Rightarrow> Some (p2, out1, Some err)
         | (out1, None) \<Rightarrow>
             (case collectLatencyMetrics p2 (latencyOrder ords) appender timestampMs out1 of
                None \<Rightarrow> None
              | Some (out2, Some err) \<Rightarrow> Some (p2, out2, Some err)
              | Some (out2, None) \<Rightarrow> Some (p2, out2, None)))"

subsection \<open>The state machine\<close>

text \<open>
  The states the processor can reach: it starts as \<open>New tenant\<close>; under the mutex a step is
  the update for one span or one collection. A step that panics leads nowhere.
\<close>

inductive reachable :: "processor \<Rightarrow> bool" where
  reachable_New: "reachable (New tenant)"
| reachable_span:
    "reachable p \<Longrightarrow> aggregateMetricsForSpan p svcName sp = Some p' \<Longrightarrow> reachable p'"
| reachable_Collect:
    "reachable p \<Longrightarrow> validOrders ords \<Longrightarrow>
     CollectMetrics p ords appender timestampMs out = Some (p', out', err) \<Longrightarrow> reachable p'"

text \<open>
  A history of the processor: span updates and collections in any order. The sink log is
  threaded through the collections; what a collection returns goes to its caller and does
  not bear on the next step.
\<close>

datatype event =
    Span string span
  | Collect rangeOrders appender "64 word"

fun run :: "processor \<times> sample list \<Rightarrow> event list \<Rightarrow> (processor \<times> sample list) option" where
  "run s [] = Some s"
| "run (p, out) (Span svcName sp # es) =
     (case aggregateMetricsForSpan p svcName sp of
        None \<Rightarrow> None
      | Some p' \<Rightarrow> run (p', out) es)"
| "run (p, out) (Collect ords appender timestampMs # es) =
     (case CollectMetrics p ords appender timestampMs out of
        None \<Rightarrow> None
      | Some (p', out', err) \<Rightarrow> run (p', out') es)"


text \<open>The history consists of spans only, none of them with the key \<open>k\<close>.\<close>

fun otherSpans :: "string \<Rightarrow> event list \<Rightarrow> bool" where
  "otherSpans k [] = True"
| "otherSpans k (Span svcName sp # es) = (buildKey svcName sp \<noteq> k \<and> otherSpans k es)"
| "otherSpans k (Collect ords appender timestampMs # es) = False"



subsection \<open>Invariants and descriptions used in the theorems\<close>

text \<open>All six maps of the processor have the same keys.\<close>

definition sameKeys :: "processor \<Rightarrow> bool" where
  "sameKeys p =
     (fmdom (latencyCount p) = fmdom (calls p) \<and>
      fmdom (latencySum p) = fmdom (calls p) \<and>
      fmdom (latencyBucketCounts p) = fmdom (calls p) \<and>
      fmdom (cache p) = fmdom (calls p) \<and>
      fmdom (stalenessCounter p) = fmdom (calls p))"

text \<open>Every slice of bucket counts has one count per boundary and one for the overflow.\<close>

definition bucketShape :: "processor \<Rightarrow> bool" where
  "bucketShape p =
     (\<forall>k counts. fmlookup (latencyBucketCounts p) k = Some counts \<longrightarrow>
        length counts = length (latencyBuckets p) + 1)"

definition wellFormed :: "processor \<Rightarrow> bool" where
  "wellFormed p = (sameKeys p \<and> bucketShape p)"

text \<open>
  The overflow count, the one after the counts of the boundaries, is zero in every slice; and
  no cached label set holds the label \<open>le = +Inf\<close> of the overflow sample.
\<close>

definition overflowZero :: "processor \<Rightarrow> bool" where
  "overflowZero p =
     (\<forall>k counts. fmlookup (latencyBucketCounts p) k = Some counts \<longrightarrow>
        counts ! length (latencyBuckets p) = 0)"

definition cacheWithoutLe :: "processor \<Rightarrow> bool" where
  "cacheWithoutLe p =
     (\<forall>k lbls. fmlookup (cache p) k = Some lbls \<longrightarrow> (''le'', ''+Inf'') \<notin> set lbls)"

text \<open>A key is in all six maps, or in none of them.\<close>

definition present :: "processor \<Rightarrow> string \<Rightarrow> bool" where
  "present p k =
     (k |\<in>| fmdom (calls p) \<and> k |\<in>| fmdom (latencyCount p) \<and> k |\<in>| fmdom (latencySum p) \<and>
      k |\<in>| fmdom (latencyBucketCounts p) \<and> k |\<in>| fmdom (cache p) \<and>
      k |\<in>| fmdom (stalenessCounter p))"

definition absent :: "processor \<Rightarrow> string \<Rightarrow> bool" where
  "absent p k =
     (k |\<notin>| fmdom (calls p) \<and> k |\<notin>| fmdom (latencyCount p) \<and> k |\<notin>| fmdom (latencySum p) \<and>
      k |\<notin>| fmdom (latencyBucketCounts p) \<and> k |\<notin>| fmdom (cache p) \<and>
      k |\<notin>| fmdom (stalenessCounter p))"

text \<open>
  The bucket counts of a key as the histogram update finds them, or creates them for a new
  key; and a slice of counts with the first \<open>idx\<close> counts incremented.
\<close>

definition countsOrNew :: "processor \<Rightarrow> string \<Rightarrow> real list" where
  "countsOrNew p key =
     (if key |\<in>| fmdom (latencyBucketCounts p) then sliceIndex (latencyBucketCounts p) key
      else replicate (length (latencyBuckets p) + 1) 0)"

definition incremented :: "real list \<Rightarrow> nat \<Rightarrow> real list" where
  "incremented counts idx = map (\<lambda>j. if j < idx then counts ! j + 1 else counts ! j) [0..<length counts]"

text \<open>A key that the next sweep removes: its counter reaches the threshold 4.\<close>

definition evicts :: "processor \<Rightarrow> string \<Rightarrow> bool" where
  "evicts p k = (k |\<in>| fmdom (stalenessCounter p) \<and> 4 \<le> mapIndex (stalenessCounter p) k + 1)"

text \<open>
  The samples of one collection cycle, in the order of emission, as section 4.2 of the
  specification lists them: per key one calls sample; then per key the latency count, the
  latency sum, and one sample per bucket count.
\<close>

definition callsSample :: "processor \<Rightarrow> 64 word \<Rightarrow> string \<Rightarrow> sample" where
  "callsSample p timestampMs key =
     \<lparr>ref = 0, l = getLabels p key callsMetric, t = timestampMs, v = mapIndex (calls p) key\<rparr>"

definition leValue :: "processor \<Rightarrow> nat \<Rightarrow> string" where
  "leValue p i =
     (if i = length (latencyBuckets p) then ''+Inf''
      else Itoa (float64_to_int (latencyBuckets p ! i)))"

definition bucketSample :: "processor \<Rightarrow> 64 word \<Rightarrow> string \<Rightarrow> nat \<Rightarrow> real \<Rightarrow> sample" where
  "bucketSample p timestampMs key i count =
     \<lparr>ref = 0, l = getLabels p key latencyBucketMetric @ [(''le'', leValue p i)],
      t = timestampMs, v = count\<rparr>"

fun bucketSamples :: "processor \<Rightarrow> 64 word \<Rightarrow> string \<Rightarrow> nat \<Rightarrow> real list \<Rightarrow> sample list" where
  "bucketSamples p timestampMs key i [] = []"
| "bucketSamples p timestampMs key i (count # counts) =
     bucketSample p timestampMs key i count # bucketSamples p timestampMs key (i + 1) counts"

definition latencySamples :: "processor \<Rightarrow> 64 word \<Rightarrow> string \<Rightarrow> sample list" where
  "latencySamples p timestampMs key =
     [\<lparr>ref = 0, l = getLabels p key latencyCountMetric, t = timestampMs,
       v = mapIndex (latencyCount p) key\<rparr>,
      \<lparr>ref = 0, l = getLabels p key latencySumMetric, t = timestampMs,
       v = mapIndex (latencySum p) key\<rparr>]
     @ bucketSamples p timestampMs key 0 (sliceIndex (latencyBucketCounts p) key)"

definition cycleSamples :: "processor \<Rightarrow> rangeOrders \<Rightarrow> 64 word \<Rightarrow> sample list" where
  "cycleSamples p ords timestampMs =
     map (callsSample p timestampMs) (callsOrder ords (fmdom (calls p))) @
     concat (map (latencySamples p timestampMs) (latencyOrder ords (fmdom (latencyCount p))))"

text \<open>Appending a list of samples one by one, stopping at the first failure.\<close>

fun appendAll :: "appender \<Rightarrow> sample list \<Rightarrow> sample list \<Rightarrow> sample list \<times> error option" where
  "appendAll appender out [] = (out, None)"
| "appendAll appender out (s # ss) =
     (case Append appender out s of
        (out', Some err) \<Rightarrow> (out', Some err)
      | (out', None) \<Rightarrow> appendAll appender out' ss)"

text \<open>The state a collection leaves: the sweep, then the gauge.\<close>

definition collected :: "processor \<Rightarrow> rangeOrders \<Rightarrow> processor" where
  "collected p ords =
     (sweep (staleOrder ords) p)
       \<lparr>metricActiveSeries :=
          Set_gauge (metricActiveSeries (sweep (staleOrder ords) p))
            (real (fcard (fmdom (calls (sweep (staleOrder ords) p)))))\<rparr>"

text \<open>A sink that accepts every sample, and one that refuses every sample.\<close>

definition acceptAll :: appender where
  "acceptAll out s = None"

definition refuseAll :: appender where
  "refuseAll out s = Some (Error ''unavailable'')"


text \<open>The map order that visits the keys in ascending order.\<close>

definition ascending :: rangeOrders where
  "ascending =
     \<lparr>staleOrder = sorted_list_of_fset, callsOrder = sorted_list_of_fset,
      latencyOrder = sorted_list_of_fset\<rparr>"

text \<open>A span of 20 ms, and the processor after one such span of service \<open>shop\<close>.\<close>

definition span20 :: span where
  "span20 =
     \<lparr> Name = ''get'', Kind = SPAN_KIND_SERVER, Status = \<lparr> Message = '''', Code = STATUS_CODE_OK \<rparr>,
       StartTimeUnixNano = 1000000, EndTimeUnixNano = 21000000 \<rparr>"


text \<open>Two spans with one status code and different status messages.\<close>

definition failedSpanA :: span where
  "failedSpanA =
     \<lparr> Name = ''get'', Kind = SPAN_KIND_SERVER,
       Status = \<lparr> Message = ''timeout'', Code = STATUS_CODE_ERROR \<rparr>,
       StartTimeUnixNano = 0, EndTimeUnixNano = 0 \<rparr>"

definition failedSpanB :: span where
  "failedSpanB =
     \<lparr> Name = ''get'', Kind = SPAN_KIND_SERVER,
       Status = \<lparr> Message = ''refused'', Code = STATUS_CODE_ERROR \<rparr>,
       StartTimeUnixNano = 0, EndTimeUnixNano = 0 \<rparr>"

definition shopKey :: string where
  "shopKey = ''shop_get_SPAN_KIND_SERVER_code:STATUS_CODE_OK ''"

definition afterOneSpan :: processor where
  "afterOneSpan =
     \<lparr> namespace = ''tempo'',
       calls = fmupd shopKey 1 fmempty,
       latencyCount = fmupd shopKey 1 fmempty,
       latencySum = fmupd shopKey 20 fmempty,
       latencyBucketCounts = fmupd shopKey [1, 1, 0, 0, 0, 0] fmempty,
       latencyBuckets = [1, 10, 50, 100, 500],
       cache = fmupd shopKey
         [(''service'', ''shop''), (''span_name'', ''get''),
          (''span_kind'', ''SPAN_KIND_SERVER''), (''span_status'', ''STATUS_CODE_OK'')]
         fmempty,
       stalenessCounter = fmupd shopKey 0 fmempty,
       metricActiveSeries = \<lparr> tenantLabel = ''t'', gaugeValue = 0 \<rparr> \<rparr>"

text \<open>A resource whose first service-name attribute is not a string, with one span.\<close>

definition unnamedResourceSpans :: resourceSpans where
  "unnamedResourceSpans =
     \<lparr> Resource = \<lparr> Attributes =
         [\<lparr> Key = ''host.name'', Value = StringValue ''h1'' \<rparr>,
          \<lparr> Key = ''service.name'', Value = IntValue 7 \<rparr>,
          \<lparr> Key = ''service.name'', Value = StringValue ''shop'' \<rparr>] \<rparr>,
       InstrumentationLibrarySpans = [\<lparr> Spans = [span20] \<rparr>, \<lparr> Spans = [span20, span20] \<rparr>] \<rparr>"

text \<open>The aggregation key of the specification: the tuple a key stands for.\<close>

definition keyTuple :: "string \<Rightarrow> span \<Rightarrow> string \<times> string \<times> spanKind \<times> statusCode" where
  "keyTuple svcName sp = (svcName, Name sp, Kind sp, Code (Status sp))"



section \<open>Aggregation keys\<close>





text \<open>
  The key also tells apart what the tuple does not: two spans of one service, operation,
  kind and status code whose status messages differ have different keys.
\<close>

lemma buildKey_splits_on_message:
  "keyTuple ''shop'' failedSpanA = keyTuple ''shop'' failedSpanB \<and>
   buildKey ''shop'' failedSpanA \<noteq> buildKey ''shop'' failedSpanB"
  by (simp add: buildKey_def buildKeyWith_def keyTuple_def failedSpanA_def failedSpanB_def
      Status_String_def)



section \<open>Rounding to float64\<close>

lemma roundHalfEven_of_int [simp]: "roundHalfEven (of_int m) = m"
  by (simp add: roundHalfEven_def)




text \<open>Whole numbers below \<open>2^53\<close> are \<^verbatim>\<open>float64\<close> values: rounding leaves them as they are.\<close>

lemma round64_of_int:
  assumes "\<bar>n\<bar> < 2 ^ 53"
  shows "round64 (of_int n) = of_int n"
proof (cases "n = 0")
  case True
  then show ?thesis by (simp add: round64_def)
next
  case False
  define x :: real where "x = of_int n"
  have x1: "1 \<le> \<bar>x\<bar>" using False by (simp add: x_def)
  have x2: "\<bar>x\<bar> < 2 ^ 53"
  proof -
    have "\<bar>x\<bar> = of_int \<bar>n\<bar>" by (simp add: x_def)
    also have "\<dots> < of_int (2 ^ 53)" using assms by (simp only: of_int_less_iff)
    finally show ?thesis by simp
  qed
  define e where "e = \<lfloor>log 2 \<bar>x\<bar>\<rfloor>"
  have "0 \<le> log 2 \<bar>x\<bar>" using x1 by simp
  then have e0: "0 \<le> e" by (simp add: e_def)
  have "log 2 \<bar>x\<bar> < 53"
  proof -
    have "(2::real) powr 53 = 2 ^ 53" by simp
    with x2 have "\<bar>x\<bar> < 2 powr 53" by simp
    moreover have "0 < \<bar>x\<bar>" using x1 by simp
    ultimately show ?thesis by (subst log_less_iff) simp_all
  qed
  then have e1: "e < 53" by (simp add: e_def floor_less_iff)
  define j where "j = nat (52 - e)"
  have je: "of_int e - 52 = - real j" using e0 e1 by (simp add: j_def)
  have u: "ulp x = 1 / 2 ^ j"
  proof -
    have "max (- 1022) e = e" using e0 by simp
    then have "ulp x = 2 powr (of_int e - 52)" by (simp add: ulp_def e_def)
    also have "\<dots> = 2 powr (- real j)" by (simp only: je)
    also have "\<dots> = 1 / 2 ^ j" by (simp add: powr_minus powr_realpow divide_inverse)
    finally show ?thesis .
  qed
  have nz: "x \<noteq> 0" using False by (simp add: x_def)
  have "x / ulp x = of_int (n * 2 ^ j)" unfolding u by (simp add: x_def)
  then have "roundHalfEven (x / ulp x) = n * 2 ^ j" by (simp only: roundHalfEven_of_int)
  moreover have "round64 x = of_int (roundHalfEven (x / ulp x)) * ulp x"
    using nz by (simp add: round64_def)
  ultimately have "round64 x = of_int (n * 2 ^ j) * (1 / 2 ^ j)"
    by (simp only: u)
  also have "\<dots> = x" by (simp add: x_def)
  finally show ?thesis by (simp add: x_def)
qed

lemma round64_numeral [simp]:
  "\<bar>numeral w :: int\<bar> < 2 ^ 53 \<Longrightarrow> round64 (numeral w) = numeral w"
  using round64_of_int [of "numeral w"] by simp

lemma round64_0 [simp]: "round64 0 = 0"
  by (simp add: round64_def)



lemma latencyMS_span20: "latencyMS span20 = 20"
  by (simp add: latencyMS_def span20_def float64_div_def float64_of_uint64_def)

lemma float64_add_small:
  "float64_add 0 20 = 20" "float64_add 20 20 = 40" "float64_add 40 20 = 60"
  by (simp_all add: float64_add_def)

section \<open>Binary search and the bucket update\<close>

lemma Search_loop_bounds: "i \<le> j \<Longrightarrow> i \<le> Search_loop f i j \<and> Search_loop f i j \<le> j"
proof (induction f i j rule: Search_loop.induct)
  case (1 f i j)
  show ?case
  proof (cases "i < j")
    case False
    with "1.prems" show ?thesis by (simp add: Search_loop.simps)
  next
    case True
    define h where "h = (i + j) div 2"
    from True have hb: "i \<le> h" "h < j" by (simp_all add: h_def)
    show ?thesis
    proof (cases "f h")
      case True
      with 1(2) [OF \<open>i < j\<close> h_def] hb have "i \<le> Search_loop f i h \<and> Search_loop f i h \<le> h"
        by simp
      with True \<open>i < j\<close> hb show ?thesis
        by (subst (1 2) Search_loop.simps) (simp add: h_def Let_def)
    next
      case False
      with 1(1) [OF \<open>i < j\<close> h_def] hb
      have "h + 1 \<le> Search_loop f (h + 1) j \<and> Search_loop f (h + 1) j \<le> j"
        by simp
      with False \<open>i < j\<close> hb show ?thesis
        by (subst (1 2) Search_loop.simps) (simp add: h_def Let_def)
    qed
  qed
qed

lemma Search_loop_partition:
  assumes "i \<le> j" and "j \<le> n"
    and "\<forall>k<i. \<not> f k" and "\<forall>k. j \<le> k \<and> k < n \<longrightarrow> f k"
    and "\<forall>k k'. k \<le> k' \<and> k' < n \<and> f k \<longrightarrow> f k'"
  shows "\<forall>k<n. (k < Search_loop f i j) = (\<not> f k)"
  using assms
proof (induction f i j rule: Search_loop.induct)
  case (1 f i j)
  show ?case
  proof (cases "i < j")
    case False
    with "1.prems" have "i = j" by simp
    with "1.prems" show ?thesis
      by (subst Search_loop.simps) (auto simp: not_less)
  next
    case True
    define h where "h = (i + j) div 2"
    from True have hb: "i \<le> h" "h < j" by (simp_all add: h_def)
    show ?thesis
    proof (cases "f h")
      case True
      have "\<forall>k. h \<le> k \<and> k < n \<longrightarrow> f k"
        using "1.prems"(5) True by blast
      with 1(2) [OF \<open>i < j\<close> h_def] True hb "1.prems"
      have "\<forall>k<n. (k < Search_loop f i h) = (\<not> f k)" by simp
      with True \<open>i < j\<close> show ?thesis
        by (subst Search_loop.simps) (simp add: h_def Let_def)
    next
      case False
      have "\<forall>k<h + 1. \<not> f k"
      proof (intro allI impI)
        fix k assume "k < h + 1"
        then have "k \<le> h" by simp
        with "1.prems"(5) hb "1.prems"(2) False show "\<not> f k"
          by (meson le_trans less_le_trans)
      qed
      with 1(1) [OF \<open>i < j\<close> h_def] False hb "1.prems"
      have "\<forall>k<n. (k < Search_loop f (h + 1) j) = (\<not> f k)" by simp
      with False \<open>i < j\<close> show ?thesis
        by (subst Search_loop.simps) (simp add: h_def Let_def)
    qed
  qed
qed

lemma SearchFloat64s_le: "SearchFloat64s a x \<le> length a"
  using Search_loop_bounds [of 0 "length a"] by (simp add: SearchFloat64s_def Search_def)

lemma SearchFloat64s_sorted:
  assumes "sorted a" and "k < length a"
  shows "k < SearchFloat64s a x \<longleftrightarrow> a ! k < x"
proof -
  have mono: "\<forall>k k'. k \<le> k' \<and> k' < length a \<and> x \<le> a ! k \<longrightarrow> x \<le> a ! k'"
    using assms(1) by (meson order_trans sorted_nth_mono)
  have "\<forall>k<length a. (k < Search_loop (\<lambda>i. x \<le> a ! i) 0 (length a)) = (\<not> x \<le> a ! k)"
    by (rule Search_loop_partition) (use mono in simp_all)
  with assms(2) show ?thesis
    by (simp add: SearchFloat64s_def Search_def not_le)
qed

lemma incrementBuckets_Some:
  "idx \<le> length counts \<Longrightarrow>
   incrementBuckets counts i idx =
     Some (map (\<lambda>j. if i \<le> j \<and> j < idx then counts ! j + 1 else counts ! j) [0..<length counts])"
proof (induction counts i idx rule: incrementBuckets.induct)
  case (1 counts i idx)
  show ?case
  proof (cases "i < idx")
    case False
    then have "map (\<lambda>j. if i \<le> j \<and> j < idx then counts ! j + 1 else counts ! j) [0..<length counts]
      = map (\<lambda>j. counts ! j) [0..<length counts]"
      by (intro map_cong) auto
    with False show ?thesis
      by (subst incrementBuckets.simps) (simp add: map_nth)
  next
    case True
    with "1.prems" have il: "i < length counts" by simp
    let ?c = "counts[i := counts ! i + 1]"
    from 1(1) [OF True il] "1.prems"
    have "incrementBuckets ?c (i + 1) idx =
      Some (map (\<lambda>j. if i + 1 \<le> j \<and> j < idx then ?c ! j + 1 else ?c ! j) [0..<length ?c])"
      by simp
    moreover have "map (\<lambda>j. if i + 1 \<le> j \<and> j < idx then ?c ! j + 1 else ?c ! j) [0..<length ?c]
      = map (\<lambda>j. if i \<le> j \<and> j < idx then counts ! j + 1 else counts ! j) [0..<length counts]"
      using True il by (auto simp: nth_list_update)
    ultimately show ?thesis
      using True il by (subst incrementBuckets.simps) simp
  qed
qed

lemma incrementBuckets_None:
  "i \<le> idx \<Longrightarrow> length counts < idx \<Longrightarrow> i \<le> length counts \<Longrightarrow> incrementBuckets counts i idx = None"
proof (induction counts i idx rule: incrementBuckets.induct)
  case (1 counts i idx)
  show ?case
  proof (cases "i < length counts")
    case True
    with 1 show ?thesis
      by (subst incrementBuckets.simps) simp
  next
    case False
    with 1 show ?thesis
      by (subst incrementBuckets.simps) simp
  qed
qed

lemma length_incremented [simp]: "length (incremented counts idx) = length counts"
  by (simp add: incremented_def)

lemma nth_incremented:
  "j < length counts \<Longrightarrow> incremented counts idx ! j = (if j < idx then counts ! j + 1 else counts ! j)"
  by (simp add: incremented_def)

lemma incrementBuckets_from_0:
  "idx \<le> length counts \<Longrightarrow> incrementBuckets counts 0 idx = Some (incremented counts idx)"
  by (simp add: incrementBuckets_Some incremented_def)

lemma sliceIndex_fmupd [simp]: "sliceIndex (fmupd k x m) k = x"
  by (simp add: sliceIndex_def)

lemma mapIndex_fmupd [simp]: "mapIndex (fmupd k x m) k = x"
  by (simp add: mapIndex_def)

lemma aggregateLatencyMetrics_eq:
  assumes "length (countsOrNew p key) = length (latencyBuckets p) + 1"
  shows "aggregateLatencyMetrics p key x =
    Some (p\<lparr>latencyCount := fmupd key (mapIndex (latencyCount p) key + 1) (latencyCount p),
            latencySum := fmupd key (float64_add (mapIndex (latencySum p) key) x) (latencySum p),
            latencyBucketCounts :=
              fmupd key (incremented (countsOrNew p key) (SearchFloat64s (latencyBuckets p) x))
                (latencyBucketCounts p)\<rparr>)"
proof -
  let ?idx = "SearchFloat64s (latencyBuckets p) x"
  have idx: "?idx \<le> length (countsOrNew p key)"
    using assms SearchFloat64s_le [of "latencyBuckets p" x] by simp
  show ?thesis
  proof (cases "key |\<in>| fmdom (latencyBucketCounts p)")
    case True
    with idx have "incrementBuckets (sliceIndex (latencyBucketCounts p) key) 0 ?idx
      = Some (incremented (countsOrNew p key) ?idx)"
      by (simp add: countsOrNew_def incrementBuckets_from_0)
    with True show ?thesis
      by (simp add: aggregateLatencyMetrics_def Let_def)
  next
    case False
    with idx have "incrementBuckets (replicate (length (latencyBuckets p) + 1) 0) 0 ?idx
      = Some (incremented (countsOrNew p key) ?idx)"
      by (simp add: countsOrNew_def incrementBuckets_from_0)
    with False show ?thesis
      by (simp add: aggregateLatencyMetrics_def Let_def)
  qed
qed

lemma countsOrNew_cong:
  "latencyBucketCounts p' = latencyBucketCounts p \<Longrightarrow> latencyBuckets p' = latencyBuckets p \<Longrightarrow>
   countsOrNew p' key = countsOrNew p key"
  by (simp add: countsOrNew_def)

lemma aggregateMetricsForSpan_eq:
  assumes "length (countsOrNew p (buildKey svcName sp)) = length (latencyBuckets p) + 1"
  shows "aggregateMetricsForSpan p svcName sp =
    Some (p\<lparr>cache := fmupd (buildKey svcName sp)
               [(''service'', svcName),
                (''span_name'', Name sp),
                (''span_kind'', SpanKind_String (Kind sp)),
                (''span_status'', StatusCode_String (Code (Status sp)))]
               (cache p),
            stalenessCounter := fmupd (buildKey svcName sp) 0 (stalenessCounter p),
            calls := fmupd (buildKey svcName sp)
               (mapIndex (calls p) (buildKey svcName sp) + 1) (calls p),
            latencyCount := fmupd (buildKey svcName sp)
               (mapIndex (latencyCount p) (buildKey svcName sp) + 1) (latencyCount p),
            latencySum := fmupd (buildKey svcName sp)
               (float64_add (mapIndex (latencySum p) (buildKey svcName sp)) (latencyMS sp))
               (latencySum p),
            latencyBucketCounts :=
              fmupd (buildKey svcName sp)
                (incremented (countsOrNew p (buildKey svcName sp))
                   (SearchFloat64s (latencyBuckets p) (latencyMS sp)))
                (latencyBucketCounts p)\<rparr>)"
proof -
  let ?key = "buildKey svcName sp"
  let ?p3 = "(cacheLabels p ?key svcName sp)
     \<lparr>stalenessCounter := fmupd ?key 0 (stalenessCounter (cacheLabels p ?key svcName sp)),
      calls := fmupd ?key (mapIndex (calls p) ?key + 1) (calls p)\<rparr>"
  have c: "countsOrNew ?p3 ?key = countsOrNew p ?key"
    by (simp add: countsOrNew_def cacheLabels_def)
  have "length (countsOrNew ?p3 ?key) = length (latencyBuckets ?p3) + 1"
    unfolding c using assms by (simp add: cacheLabels_def)
  note eq = aggregateLatencyMetrics_eq [OF this, of "latencyMS sp", unfolded c]
  have "aggregateMetricsForSpan p svcName sp = aggregateLatencyMetrics ?p3 ?key (latencyMS sp)"
    by (simp add: aggregateMetricsForSpan_def Let_def cacheLabels_def)
  also note eq
  finally show ?thesis
    by (simp add: cacheLabels_def)
qed

section \<open>The staleness sweep\<close>

lemma sweepKey_stalenessCounter:
  "fmlookup (stalenessCounter (sweepKey p x)) k =
     (if k = x then
        (if 4 \<le> mapIndex (stalenessCounter p) x + 1 then None
         else Some (mapIndex (stalenessCounter p) x + 1))
      else fmlookup (stalenessCounter p) k)"
  by (simp add: sweepKey_def Let_def)

lemma sweepKey_maps:
  "fmlookup (calls (sweepKey p x)) k =
     (if k = x \<and> 4 \<le> mapIndex (stalenessCounter p) x + 1 then None else fmlookup (calls p) k)"
  "fmlookup (latencyCount (sweepKey p x)) k =
     (if k = x \<and> 4 \<le> mapIndex (stalenessCounter p) x + 1 then None
      else fmlookup (latencyCount p) k)"
  "fmlookup (latencySum (sweepKey p x)) k =
     (if k = x \<and> 4 \<le> mapIndex (stalenessCounter p) x + 1 then None
      else fmlookup (latencySum p) k)"
  "fmlookup (latencyBucketCounts (sweepKey p x)) k =
     (if k = x \<and> 4 \<le> mapIndex (stalenessCounter p) x + 1 then None
      else fmlookup (latencyBucketCounts p) k)"
  "fmlookup (cache (sweepKey p x)) k =
     (if k = x \<and> 4 \<le> mapIndex (stalenessCounter p) x + 1 then None else fmlookup (cache p) k)"
  by (simp_all add: sweepKey_def Let_def)

lemma sweepKey_fixed:
  "latencyBuckets (sweepKey p x) = latencyBuckets p"
  "namespace (sweepKey p x) = namespace p"
  "metricActiveSeries (sweepKey p x) = metricActiveSeries p"
  by (simp_all add: sweepKey_def Let_def)

lemma sweepKey_mapIndex_other:
  "k \<noteq> x \<Longrightarrow> mapIndex (stalenessCounter (sweepKey p x)) k = mapIndex (stalenessCounter p) k"
  by (simp add: mapIndex_def sweepKey_stalenessCounter)

lemma foldl_sweepKey_stalenessCounter:
  "distinct ks \<Longrightarrow>
   fmlookup (stalenessCounter (foldl sweepKey p ks)) k =
     (if k \<in> set ks then
        (if 4 \<le> mapIndex (stalenessCounter p) k + 1 then None
         else Some (mapIndex (stalenessCounter p) k + 1))
      else fmlookup (stalenessCounter p) k)"
proof (induction ks arbitrary: p)
  case Nil
  then show ?case by simp
next
  case (Cons x ks)
  then have d: "distinct ks" and nx: "x \<notin> set ks" by simp_all
  show ?case
  proof (cases "k = x")
    case True
    with nx Cons.IH [OF d, of "sweepKey p x"] show ?thesis
      by (simp add: sweepKey_stalenessCounter)
  next
    case False
    with Cons.IH [OF d, of "sweepKey p x"] show ?thesis
      by (simp add: sweepKey_stalenessCounter sweepKey_mapIndex_other)
  qed
qed

lemma foldl_sweepKey_maps_conj:
  "distinct ks \<Longrightarrow>
   fmlookup (calls (foldl sweepKey p ks)) k =
     (if k \<in> set ks \<and> 4 \<le> mapIndex (stalenessCounter p) k + 1 then None
      else fmlookup (calls p) k) \<and>
   fmlookup (latencyCount (foldl sweepKey p ks)) k =
     (if k \<in> set ks \<and> 4 \<le> mapIndex (stalenessCounter p) k + 1 then None
      else fmlookup (latencyCount p) k) \<and>
   fmlookup (latencySum (foldl sweepKey p ks)) k =
     (if k \<in> set ks \<and> 4 \<le> mapIndex (stalenessCounter p) k + 1 then None
      else fmlookup (latencySum p) k) \<and>
   fmlookup (latencyBucketCounts (foldl sweepKey p ks)) k =
     (if k \<in> set ks \<and> 4 \<le> mapIndex (stalenessCounter p) k + 1 then None
      else fmlookup (latencyBucketCounts p) k) \<and>
   fmlookup (cache (foldl sweepKey p ks)) k =
     (if k \<in> set ks \<and> 4 \<le> mapIndex (stalenessCounter p) k + 1 then None
      else fmlookup (cache p) k)"
proof (induction ks arbitrary: p)
  case Nil
  show ?case by simp
next
  case (Cons x ks)
  from Cons.prems have d: "distinct ks" and nx: "x \<notin> set ks" by simp_all
  note IH = Cons.IH [OF d, of "sweepKey p x"]
  show ?case
  proof (cases "k = x")
    case True
    with nx IH show ?thesis
      by (simp add: sweepKey_maps)
  next
    case False
    then have "mapIndex (stalenessCounter (sweepKey p x)) k = mapIndex (stalenessCounter p) k"
      by (rule sweepKey_mapIndex_other)
    with False IH show ?thesis
      by (simp add: sweepKey_maps)
  qed
qed

lemmas foldl_sweepKey_maps =
  foldl_sweepKey_maps_conj [THEN conjunct1]
  foldl_sweepKey_maps_conj [THEN conjunct2, THEN conjunct1]
  foldl_sweepKey_maps_conj [THEN conjunct2, THEN conjunct2, THEN conjunct1]
  foldl_sweepKey_maps_conj [THEN conjunct2, THEN conjunct2, THEN conjunct2, THEN conjunct1]
  foldl_sweepKey_maps_conj [THEN conjunct2, THEN conjunct2, THEN conjunct2, THEN conjunct2]

lemma foldl_sweepKey_fixed:
  "latencyBuckets (foldl sweepKey p ks) = latencyBuckets p"
  "namespace (foldl sweepKey p ks) = namespace p"
  "metricActiveSeries (foldl sweepKey p ks) = metricActiveSeries p"
  by (induction ks arbitrary: p) (simp_all add: sweepKey_fixed)

lemma validOrder_set: "validOrder ord \<Longrightarrow> k \<in> set (ord S) \<longleftrightarrow> k |\<in>| S"
  by (metis validOrder_def fset_of_list.rep_eq)

lemma validOrder_distinct: "validOrder ord \<Longrightarrow> distinct (ord S)"
  by (simp add: validOrder_def)


lemma sweep_stalenessCounter:
  assumes "validOrder ord"
  shows "fmlookup (stalenessCounter (sweep ord p)) k =
     (if k |\<in>| fmdom (stalenessCounter p) \<and> \<not> evicts p k
      then Some (mapIndex (stalenessCounter p) k + 1) else None)"
  using foldl_sweepKey_stalenessCounter [OF validOrder_distinct [OF assms], of p _ k]
  by (auto simp: sweep_def evicts_def validOrder_set [OF assms] fmdom_notD)

lemma sweep_maps:
  assumes "validOrder ord"
  shows "fmlookup (calls (sweep ord p)) k = (if evicts p k then None else fmlookup (calls p) k)"
    and "fmlookup (latencyCount (sweep ord p)) k =
      (if evicts p k then None else fmlookup (latencyCount p) k)"
    and "fmlookup (latencySum (sweep ord p)) k =
      (if evicts p k then None else fmlookup (latencySum p) k)"
    and "fmlookup (latencyBucketCounts (sweep ord p)) k =
      (if evicts p k then None else fmlookup (latencyBucketCounts p) k)"
    and "fmlookup (cache (sweep ord p)) k = (if evicts p k then None else fmlookup (cache p) k)"
  using foldl_sweepKey_maps [OF validOrder_distinct [OF assms], of p _ k]
  by (simp_all add: sweep_def evicts_def validOrder_set [OF assms])

lemma sweep_fixed:
  "latencyBuckets (sweep ord p) = latencyBuckets p"
  "namespace (sweep ord p) = namespace p"
  "metricActiveSeries (sweep ord p) = metricActiveSeries p"
  by (simp_all add: sweep_def foldl_sweepKey_fixed)

section \<open>Invariants\<close>

lemma wellFormed_New: "wellFormed (New tenant)"
  by (simp add: wellFormed_def sameKeys_def bucketShape_def New_def)

lemma countsOrNew_length:
  "bucketShape p \<Longrightarrow> length (countsOrNew p key) = length (latencyBuckets p) + 1"
  by (auto simp: bucketShape_def countsOrNew_def sliceIndex_def fmlookup_dom_iff)

lemma span_step_total:
  "bucketShape p \<Longrightarrow> \<exists>p'. aggregateMetricsForSpan p svcName sp = Some p'"
  by (simp add: aggregateMetricsForSpan_eq countsOrNew_length)

lemma span_step_fields:
  assumes "bucketShape p" and "aggregateMetricsForSpan p svcName sp = Some p'"
  shows "calls p' = fmupd (buildKey svcName sp) (mapIndex (calls p) (buildKey svcName sp) + 1) (calls p)"
    and "latencyCount p' = fmupd (buildKey svcName sp)
           (mapIndex (latencyCount p) (buildKey svcName sp) + 1) (latencyCount p)"
    and "latencySum p' = fmupd (buildKey svcName sp)
           (float64_add (mapIndex (latencySum p) (buildKey svcName sp)) (latencyMS sp))
           (latencySum p)"
    and "latencyBucketCounts p' = fmupd (buildKey svcName sp)
           (incremented (countsOrNew p (buildKey svcName sp))
              (SearchFloat64s (latencyBuckets p) (latencyMS sp)))
           (latencyBucketCounts p)"
    and "cache p' = fmupd (buildKey svcName sp)
           [(''service'', svcName),
            (''span_name'', Name sp),
            (''span_kind'', SpanKind_String (Kind sp)),
            (''span_status'', StatusCode_String (Code (Status sp)))]
           (cache p)"
    and "stalenessCounter p' = fmupd (buildKey svcName sp) 0 (stalenessCounter p)"
    and "latencyBuckets p' = latencyBuckets p"
    and "namespace p' = namespace p"
    and "metricActiveSeries p' = metricActiveSeries p"
  using assms(2) aggregateMetricsForSpan_eq [OF countsOrNew_length [OF assms(1)], of svcName sp]
  by auto

lemma span_step_sameKeys:
  assumes "wellFormed p" and "aggregateMetricsForSpan p svcName sp = Some p'"
  shows "sameKeys p'"
proof -
  from assms(1) have b: "bucketShape p" and s: "sameKeys p" by (simp_all add: wellFormed_def)
  note f = span_step_fields [OF b assms(2)]
  from s show ?thesis
    by (simp add: sameKeys_def f(1-6))
qed

lemma span_step_bucketShape:
  assumes "bucketShape p" and "aggregateMetricsForSpan p svcName sp = Some p'"
  shows "bucketShape p'"
proof -
  note f = span_step_fields [OF assms]
  show ?thesis
    unfolding bucketShape_def
  proof (intro allI impI)
    fix k counts
    assume l: "fmlookup (latencyBucketCounts p') k = Some counts"
    show "length counts = length (latencyBuckets p') + 1"
    proof (cases "k = buildKey svcName sp")
      case True
      with l have "counts = incremented (countsOrNew p (buildKey svcName sp))
         (SearchFloat64s (latencyBuckets p) (latencyMS sp))"
        by (simp add: f(4))
      then show ?thesis
        by (simp add: f(7) countsOrNew_length [OF assms(1)])
    next
      case False
      with l have "fmlookup (latencyBucketCounts p) k = Some counts"
        by (simp add: f(4))
      with assms(1) show ?thesis
        by (simp add: bucketShape_def f(7))
    qed
  qed
qed

lemma span_step_wellFormed:
  "wellFormed p \<Longrightarrow> aggregateMetricsForSpan p svcName sp = Some p' \<Longrightarrow> wellFormed p'"
  using span_step_sameKeys [of p svcName sp p'] span_step_bucketShape [of p svcName sp p']
  by (simp add: wellFormed_def)

lemma sweepKey_bucketShape: "bucketShape p \<Longrightarrow> bucketShape (sweepKey p x)"
  unfolding bucketShape_def sweepKey_maps sweepKey_fixed
  by (simp split: if_splits)

lemma foldl_sweepKey_bucketShape: "bucketShape p \<Longrightarrow> bucketShape (foldl sweepKey p ks)"
  by (induction ks arbitrary: p) (simp_all add: sweepKey_bucketShape)

lemma sweep_bucketShape: "bucketShape p \<Longrightarrow> bucketShape (sweep ord p)"
  by (simp add: sweep_def foldl_sweepKey_bucketShape)

lemma fmdom_eq_iff: "fmdom m = fmdom n \<longleftrightarrow> (\<forall>k. (fmlookup m k = None) = (fmlookup n k = None))"
proof
  assume "fmdom m = fmdom n"
  then show "\<forall>k. (fmlookup m k = None) = (fmlookup n k = None)"
    by (metis fmdom_notD fmdom_notI)
next
  assume a: "\<forall>k. (fmlookup m k = None) = (fmlookup n k = None)"
  show "fmdom m = fmdom n"
  proof (rule fset_eqI)
    fix k
    from a show "k |\<in>| fmdom m \<longleftrightarrow> k |\<in>| fmdom n"
      by (metis fmdom_notD fmdom_notI)
  qed
qed

lemma in_fmdom_iff: "k |\<in>| fmdom m \<longleftrightarrow> fmlookup m k \<noteq> None"
  by (metis fmdom_notD fmdom_notI)

lemma sweep_sameKeys:
  assumes "validOrder ord" and "sameKeys p"
  shows "sameKeys (sweep ord p)"
proof -
  have st: "fmlookup (stalenessCounter (sweep ord p)) k = None \<longleftrightarrow>
      evicts p k \<or> fmlookup (stalenessCounter p) k = None" for k
    by (simp add: sweep_stalenessCounter [OF assms(1)] in_fmdom_iff)
  from assms(2) have d: "(fmlookup (latencyCount p) k = None) = (fmlookup (calls p) k = None)"
    "(fmlookup (latencySum p) k = None) = (fmlookup (calls p) k = None)"
    "(fmlookup (latencyBucketCounts p) k = None) = (fmlookup (calls p) k = None)"
    "(fmlookup (cache p) k = None) = (fmlookup (calls p) k = None)"
    "(fmlookup (stalenessCounter p) k = None) = (fmlookup (calls p) k = None)" for k
    by (simp_all add: sameKeys_def fmdom_eq_iff)
  show ?thesis
    unfolding sameKeys_def fmdom_eq_iff
    by (simp add: sweep_maps [OF assms(1)] st d)
qed

lemma sweep_wellFormed: "validOrder ord \<Longrightarrow> wellFormed p \<Longrightarrow> wellFormed (sweep ord p)"
  by (simp add: wellFormed_def sweep_sameKeys sweep_bucketShape)

lemma collected_fields:
  "calls (collected p ords) = calls (sweep (staleOrder ords) p)"
  "latencyCount (collected p ords) = latencyCount (sweep (staleOrder ords) p)"
  "latencySum (collected p ords) = latencySum (sweep (staleOrder ords) p)"
  "latencyBucketCounts (collected p ords) = latencyBucketCounts (sweep (staleOrder ords) p)"
  "cache (collected p ords) = cache (sweep (staleOrder ords) p)"
  "stalenessCounter (collected p ords) = stalenessCounter (sweep (staleOrder ords) p)"
  "latencyBuckets (collected p ords) = latencyBuckets p"
  "namespace (collected p ords) = namespace p"
  by (simp_all add: collected_def sweep_fixed)

lemma collected_wellFormed:
  "validOrders ords \<Longrightarrow> wellFormed p \<Longrightarrow> wellFormed (collected p ords)"
  using sweep_wellFormed [of "staleOrder ords" p]
  by (simp add: wellFormed_def sameKeys_def bucketShape_def collected_fields sweep_fixed
      validOrders_def)

lemma collected_bucketShape: "bucketShape p \<Longrightarrow> bucketShape (collected p ords)"
  using sweep_bucketShape [of p "staleOrder ords"]
  by (simp add: bucketShape_def collected_fields sweep_fixed)

section \<open>Emission\<close>

lemma appendAll_append:
  "appendAll a out (xs @ ys) =
     (case appendAll a out xs of
        (out', Some err) \<Rightarrow> (out', Some err)
      | (out', None) \<Rightarrow> appendAll a out' ys)"
  by (induction xs arbitrary: out) (simp_all add: Append_def split: option.splits)

lemma appendAll_acceptAll: "appendAll acceptAll out ss = (out @ ss, None)"
  by (induction ss arbitrary: out) (simp_all add: Append_def acceptAll_def)

lemma appendAll_never_fails:
  "\<forall>h s. a h s = None \<Longrightarrow> appendAll a out ss = (out @ ss, None)"
  by (induction ss arbitrary: out) (simp_all add: Append_def)

lemma appendAll_Some:
  "appendAll a out ss = (out', Some err) \<Longrightarrow>
   \<exists>n<length ss. out' = out @ take (Suc n) ss \<and> a (out @ take n ss) (ss ! n) = Some err \<and>
      (\<forall>m<n. a (out @ take m ss) (ss ! m) = None)"
proof (induction ss arbitrary: out)
  case Nil
  then show ?case by simp
next
  case (Cons s ss)
  show ?case
  proof (cases "a out s")
    case (Some e)
    with Cons.prems have "out' = out @ [s]" "err = e"
      by (simp_all add: Append_def)
    with Some show ?thesis
      by (intro exI [of _ 0]) simp
  next
    case None
    with Cons.prems have "appendAll a (out @ [s]) ss = (out', Some err)"
      by (simp add: Append_def)
    from Cons.IH [OF this] obtain n where n: "n < length ss"
      "out' = (out @ [s]) @ take (Suc n) ss"
      "a ((out @ [s]) @ take n ss) (ss ! n) = Some err"
      "\<forall>m<n. a ((out @ [s]) @ take m ss) (ss ! m) = None"
      by blast
    have "\<forall>m<Suc n. a (out @ take m (s # ss)) ((s # ss) ! m) = None"
    proof (intro allI impI)
      fix m assume "m < Suc n"
      then show "a (out @ take m (s # ss)) ((s # ss) ! m) = None"
        using None n(4) by (cases m) simp_all
    qed
    with n(1-3) show ?thesis
      by (intro exI [of _ "Suc n"]) simp
  qed
qed

lemma appendAll_None:
  "appendAll a out ss = (out', None) \<Longrightarrow>
   out' = out @ ss \<and> (\<forall>m<length ss. a (out @ take m ss) (ss ! m) = None)"
proof (induction ss arbitrary: out)
  case Nil
  then show ?case by simp
next
  case (Cons s ss)
  show ?case
  proof (cases "a out s")
    case (Some e)
    with Cons.prems show ?thesis by (simp add: Append_def)
  next
    case None
    with Cons.prems have "appendAll a (out @ [s]) ss = (out', None)"
      by (simp add: Append_def)
    from Cons.IH [OF this] have o: "out' = (out @ [s]) @ ss"
      and r: "\<forall>m<length ss. a ((out @ [s]) @ take m ss) (ss ! m) = None"
      by blast+
    have "\<forall>m<length (s # ss). a (out @ take m (s # ss)) ((s # ss) ! m) = None"
    proof (intro allI impI)
      fix m assume "m < length (s # ss)"
      then show "a (out @ take m (s # ss)) ((s # ss) ! m) = None"
        using None r by (cases m) simp_all
    qed
    with o show ?thesis by simp
  qed
qed

lemma collectCalls_loop_appendAll:
  "collectCalls_loop p a ts ks out = appendAll a out (map (callsSample p ts) ks)"
  by (induction ks arbitrary: out)
    (simp_all add: callsSample_def Let_def split: prod.splits option.splits)

lemma collectBuckets_loop_appendAll:
  "i + length counts \<le> length (latencyBuckets p) + 1 \<Longrightarrow>
   collectBuckets_loop p a ts key i counts out =
     Some (appendAll a out (bucketSamples p ts key i counts))"
proof (induction counts arbitrary: i out)
  case Nil
  then show ?case by simp
next
  case (Cons c counts)
  then have i: "i = length (latencyBuckets p) \<or> i < length (latencyBuckets p)"
    and n: "(i + 1) + length counts \<le> length (latencyBuckets p) + 1"
    by auto
  have lbl: "(if i = length (latencyBuckets p)
       then getLabels p key latencyBucketMetric @ [(''le'', ''+Inf'')]
       else getLabels p key latencyBucketMetric @
              [(''le'', Itoa (float64_to_int (latencyBuckets p ! i)))])
     = getLabels p key latencyBucketMetric @ [(''le'', leValue p i)]"
    by (simp add: leValue_def)
  show ?case
    using i Cons.IH [OF n]
    by (simp add: lbl bucketSample_def Let_def split: prod.splits option.splits)
qed

lemma bucketShape_slice:
  "bucketShape p \<Longrightarrow>
   length (sliceIndex (latencyBucketCounts p) key) \<le> length (latencyBuckets p) + 1"
  by (auto simp: bucketShape_def sliceIndex_def split: option.splits)

lemma collectLatencyMetrics_loop_appendAll:
  assumes "bucketShape p"
  shows "collectLatencyMetrics_loop p a ts ks out =
     Some (appendAll a out (concat (map (latencySamples p ts) ks)))"
proof (induction ks arbitrary: out)
  case Nil
  then show ?case by simp
next
  case (Cons key ks)
  have b: "collectBuckets_loop p a ts key 0 (sliceIndex (latencyBucketCounts p) key) out2 =
      Some (appendAll a out2 (bucketSamples p ts key 0 (sliceIndex (latencyBucketCounts p) key)))"
    for out2
    using bucketShape_slice [OF assms, of key] by (intro collectBuckets_loop_appendAll) simp
  show ?case
    by (simp add: b Cons.IH latencySamples_def appendAll_append
        split: prod.splits option.splits)
qed

lemma CollectMetrics_eq:
  assumes "bucketShape p"
  shows "CollectMetrics p ords a ts out =
     (case appendAll a out (cycleSamples (collected p ords) ords ts) of
        (out', err) \<Rightarrow> Some (collected p ords, out', err))"
proof -
  have b: "bucketShape (collected p ords)"
    using assms by (rule collected_bucketShape)
  have "CollectMetrics p ords a ts out =
     (case collectCalls (collected p ords) (callsOrder ords) a ts out of
           (out1, Some err) \<Rightarrow> Some (collected p ords, out1, Some err)
         | (out1, None) \<Rightarrow>
             (case collectLatencyMetrics (collected p ords) (latencyOrder ords) a ts out1 of
                None \<Rightarrow> None
              | Some (out2, Some err) \<Rightarrow> Some (collected p ords, out2, Some err)
              | Some (out2, None) \<Rightarrow> Some (collected p ords, out2, None)))"
    unfolding CollectMetrics_def collected_def Let_def by (rule refl)
  also have "\<dots> = (case appendAll a out (cycleSamples (collected p ords) ords ts) of
        (out', err) \<Rightarrow> Some (collected p ords, out', err))"
    by (simp add: collectCalls_def collectLatencyMetrics_def collectCalls_loop_appendAll
        collectLatencyMetrics_loop_appendAll [OF b] cycleSamples_def appendAll_append
        split: prod.splits option.splits)
  finally show ?thesis .
qed

lemma CollectMetrics_total:
  "bucketShape p \<Longrightarrow> \<exists>out' err. CollectMetrics p ords a ts out = Some (collected p ords, out', err)"
  by (simp add: CollectMetrics_eq split: prod.splits)

lemma CollectMetrics_state:
  "bucketShape p \<Longrightarrow> CollectMetrics p ords a ts out = Some (p', out', err) \<Longrightarrow>
   p' = collected p ords \<and> (out', err) = appendAll a out (cycleSamples (collected p ords) ords ts)"
  by (auto simp: CollectMetrics_eq split: prod.splits)

section \<open>Histogram update\<close>



lemma SearchFloat64s_default_20: "SearchFloat64s [1, 10, 50, 100, 500] 20 = 2"
proof -
  let ?bs = "[1, 10, 50, 100, 500] :: real list"
  have s: "sorted ?bs" by simp
  have "1 < SearchFloat64s ?bs 20" using SearchFloat64s_sorted [OF s, of 1 20] by simp
  moreover have "\<not> 2 < SearchFloat64s ?bs 20" using SearchFloat64s_sorted [OF s, of 2 20] by simp
  ultimately show ?thesis by simp
qed

section \<open>Counters\<close>



lemma bucketShape_New: "bucketShape (New tenant)"
  by (simp add: bucketShape_def New_def)




section \<open>Staleness and eviction\<close>

lemma validOrder_ascending: "validOrder sorted_list_of_fset"
  by (simp add: validOrder_def fset_of_list.abs_eq sorted_list_of_fset.rep_eq fset_inverse)

lemma validOrders_ascending: "validOrders ascending"
  by (simp add: validOrders_def ascending_def validOrder_ascending)

lemma evicts_iff:
  "fmlookup (stalenessCounter p) k = Some c \<Longrightarrow> evicts p k \<longleftrightarrow> 4 \<le> c + 1"
  by (simp add: evicts_def mapIndex_def fmdomI)

lemma collected_present:
  assumes "validOrders ords" and "present p k" and "\<not> evicts p k"
  shows "present (collected p ords) k"
proof -
  from assms(1) have v: "validOrder (staleOrder ords)" by (simp add: validOrders_def)
  from assms(2,3) show ?thesis
    by (simp add: present_def in_fmdom_iff collected_fields sweep_maps [OF v]
        sweep_stalenessCounter [OF v])
qed

lemma collected_absent:
  assumes "validOrders ords" and "evicts p k"
  shows "absent (collected p ords) k"
proof -
  from assms(1) have v: "validOrder (staleOrder ords)" by (simp add: validOrders_def)
  from assms(2) show ?thesis
    by (simp add: absent_def in_fmdom_iff collected_fields sweep_maps [OF v]
        sweep_stalenessCounter [OF v])
qed

lemma collected_stalenessCounter:
  assumes "validOrders ords" and "fmlookup (stalenessCounter p) k = Some c"
  shows "fmlookup (stalenessCounter (collected p ords)) k =
     (if c + 1 < 4 then Some (c + 1) else None)"
proof -
  from assms(1) have v: "validOrder (staleOrder ords)" by (simp add: validOrders_def)
  from assms(2) show ?thesis
    by (simp add: collected_fields sweep_stalenessCounter [OF v] evicts_iff [OF assms(2)]
        mapIndex_def fmdomI not_le)
qed

lemma span_step_present:
  assumes "bucketShape p" and "aggregateMetricsForSpan p svcName sp = Some p'"
  shows "present p' (buildKey svcName sp)"
  by (simp add: present_def span_step_fields(1-6) [OF assms])

lemma collect_keeps:
  assumes "bucketShape q" and "validOrders ords" and "present q k"
    and "fmlookup (stalenessCounter q) k = Some c" and "c + 1 < 4"
  shows "\<exists>q' out' err. CollectMetrics q ords a ts out = Some (q', out', err) \<and>
     bucketShape q' \<and> present q' k \<and> fmlookup (stalenessCounter q') k = Some (c + 1)"
proof -
  from CollectMetrics_total [OF assms(1)] obtain out' err
    where c: "CollectMetrics q ords a ts out = Some (collected q ords, out', err)" by blast
  have ne: "\<not> evicts q k"
    using assms(5) by (simp add: evicts_iff [OF assms(4)])
  have "present (collected q ords) k"
    using assms(2,3) ne by (rule collected_present)
  moreover have "fmlookup (stalenessCounter (collected q ords)) k = Some (c + 1)"
    using assms(5) by (simp add: collected_stalenessCounter [OF assms(2,4)])
  moreover have "bucketShape (collected q ords)"
    using assms(1) by (rule collected_bucketShape)
  ultimately show ?thesis
    using c by blast
qed

lemma collect_evicts:
  assumes "bucketShape q" and "validOrders ords"
    and "fmlookup (stalenessCounter q) k = Some c" and "4 \<le> c + 1"
  shows "\<exists>q' out' err. CollectMetrics q ords a ts out = Some (q', out', err) \<and> absent q' k"
proof -
  from CollectMetrics_total [OF assms(1)] obtain out' err
    where c: "CollectMetrics q ords a ts out = Some (collected q ords, out', err)" by blast
  have "evicts q k"
    using assms(4) by (simp add: evicts_iff [OF assms(3)])
  with assms(2) have "absent (collected q ords) k"
    by (rule collected_absent)
  with c show ?thesis by blast
qed

lemma span_other_key:
  assumes "bucketShape p" and "aggregateMetricsForSpan p svcName sp = Some p'"
    and "buildKey svcName sp \<noteq> k"
  shows "fmlookup (stalenessCounter p') k = fmlookup (stalenessCounter p) k"
    and "fmlookup (calls p') k = fmlookup (calls p) k"
    and "fmlookup (latencyCount p') k = fmlookup (latencyCount p) k"
    and "fmlookup (latencySum p') k = fmlookup (latencySum p) k"
    and "fmlookup (latencyBucketCounts p') k = fmlookup (latencyBucketCounts p) k"
    and "fmlookup (cache p') k = fmlookup (cache p) k"
  using assms(3) by (simp_all add: span_step_fields(1-6) [OF assms(1,2)])

lemma span_other_key_present:
  assumes "bucketShape p" and "aggregateMetricsForSpan p svcName sp = Some p'"
    and "buildKey svcName sp \<noteq> k"
  shows "present p' k = present p k" and "absent p' k = absent p k"
  by (simp_all add: present_def absent_def in_fmdom_iff span_other_key [OF assms])

lemma run_otherSpans:
  assumes "bucketShape p" and "otherSpans k es"
  shows "\<exists>p'. run (p, out) es = Some (p', out) \<and> bucketShape p' \<and>
     fmlookup (stalenessCounter p') k = fmlookup (stalenessCounter p) k \<and>
     present p' k = present p k \<and> absent p' k = absent p k"
  using assms
proof (induction es arbitrary: p)
  case Nil
  then show ?case by simp
next
  case (Cons e es)
  show ?case
  proof (cases e)
    case (Span svcName sp)
    with Cons.prems have ne: "buildKey svcName sp \<noteq> k" and rest: "otherSpans k es"
      by simp_all
    from span_step_total [OF Cons.prems(1)] obtain p1
      where p1: "aggregateMetricsForSpan p svcName sp = Some p1" by blast
    have b1: "bucketShape p1"
      using Cons.prems(1) p1 by (rule span_step_bucketShape)
    from Cons.IH [OF b1 rest] obtain p' where p': "run (p1, out) es = Some (p', out)"
      "bucketShape p'"
      "fmlookup (stalenessCounter p') k = fmlookup (stalenessCounter p1) k"
      "present p' k = present p1 k" "absent p' k = absent p1 k"
      by blast
    have "run (p, out) (e # es) = Some (p', out)"
      by (simp add: Span p1 p'(1))
    with p'(2-5) span_other_key(1) [OF Cons.prems(1) p1 ne]
      span_other_key_present [OF Cons.prems(1) p1 ne]
    show ?thesis by simp
  next
    case (Collect ords appender timestampMs)
    with Cons.prems show ?thesis by simp
  qed
qed

lemma run_span_then_others:
  assumes "bucketShape p" and "otherSpans (buildKey svcName sp) es"
  shows "\<exists>p' out'. run (p, out) (Span svcName sp # es) = Some (p', out') \<and> bucketShape p' \<and>
     present p' (buildKey svcName sp) \<and>
     fmlookup (stalenessCounter p') (buildKey svcName sp) = Some 0"
proof -
  from span_step_total [OF assms(1)] obtain p0
    where p0: "aggregateMetricsForSpan p svcName sp = Some p0" by blast
  have b0: "bucketShape p0" using assms(1) p0 by (rule span_step_bucketShape)
  have pr0: "present p0 (buildKey svcName sp)" using assms(1) p0 by (rule span_step_present)
  have s0: "fmlookup (stalenessCounter p0) (buildKey svcName sp) = Some 0"
    by (simp add: span_step_fields(6) [OF assms(1) p0])
  from run_otherSpans [OF b0 assms(2), of out] pr0 s0 p0 show ?thesis
    by auto
qed

lemma run_collect_keeps:
  assumes "bucketShape (fst s)" and "validOrders ords" and "present (fst s) k"
    and "fmlookup (stalenessCounter (fst s)) k = Some c" and "c + 1 < 4"
    and "otherSpans k es"
  shows "\<exists>s'. run s (Collect ords a ts # es) = Some s' \<and> bucketShape (fst s') \<and>
     present (fst s') k \<and> fmlookup (stalenessCounter (fst s')) k = Some (c + 1)"
proof -
  obtain q out where s: "s = (q, out)" by (cases s)
  from collect_keeps [OF assms(1-5) [unfolded s fst_conv], of a ts out] obtain q' out' err
    where c: "CollectMetrics q ords a ts out = Some (q', out', err)"
      and q': "bucketShape q'" "present q' k" "fmlookup (stalenessCounter q') k = Some (c + 1)"
    by blast
  from run_otherSpans [OF q'(1) assms(6), of out'] q'(2,3) c show ?thesis
    by (auto simp: s)
qed

lemma run_collect_evicts:
  assumes "bucketShape (fst s)" and "validOrders ords"
    and "fmlookup (stalenessCounter (fst s)) k = Some c" and "4 \<le> c + 1"
    and "otherSpans k es"
  shows "\<exists>s'. run s (Collect ords a ts # es) = Some s' \<and> absent (fst s') k"
proof -
  obtain q out where s: "s = (q, out)" by (cases s)
  from CollectMetrics_total [OF assms(1) [unfolded s fst_conv]] obtain out' err
    where c: "CollectMetrics q ords a ts out = Some (collected q ords, out', err)" by blast
  have "evicts q k"
    using assms(3,4) by (simp add: s evicts_iff)
  with assms(2) have ab: "absent (collected q ords) k"
    by (rule collected_absent)
  have b: "bucketShape (collected q ords)"
    using assms(1) by (simp add: s collected_bucketShape)
  from run_otherSpans [OF b assms(5), of out'] ab c show ?thesis
    by (auto simp: s)
qed

text \<open>
  C4: a span for a key \<open>k\<close> sets the staleness counter of \<open>k\<close> to 0. After that, four
  collections with no span for \<open>k\<close> in between, but with any spans for other keys before,
  between and after them, raise the counter to 1, 2 and 3 with \<open>k\<close> still in all six maps,
  and the fourth removes \<open>k\<close> from all of them, whatever the sinks do and whatever orders the
  map loops take. In general a span for \<open>k\<close> sets the counter of \<open>k\<close> to 0, a span for
  another key leaves it as it is, and a collection turns a counter \<open>c\<close> into \<open>c + 1\<close>, and
  removes the key when \<open>c + 1\<close> reaches 4.
\<close>

theorem stale_key_evicted_by_fourth_collect:
  assumes "bucketShape p"
    and "validOrders o1" and "validOrders o2" and "validOrders o3" and "validOrders o4"
    and "otherSpans (buildKey svcName sp) es0" and "otherSpans (buildKey svcName sp) es1"
    and "otherSpans (buildKey svcName sp) es2" and "otherSpans (buildKey svcName sp) es3"
    and "otherSpans (buildKey svcName sp) es4"
    and "bucketShape q" and "fmlookup (stalenessCounter q) (buildKey svcName sp) = Some c"
    and "buildKey svcName' sp' \<noteq> buildKey svcName sp"
  shows "(\<exists>s0 s1 s2 s3 s4.
      run (p, out0) (Span svcName sp # es0) = Some s0 \<and>
      present (fst s0) (buildKey svcName sp) \<and>
      fmlookup (stalenessCounter (fst s0)) (buildKey svcName sp) = Some 0 \<and>
      run s0 (Collect o1 a1 t1 # es1) = Some s1 \<and>
      present (fst s1) (buildKey svcName sp) \<and>
      fmlookup (stalenessCounter (fst s1)) (buildKey svcName sp) = Some 1 \<and>
      run s1 (Collect o2 a2 t2 # es2) = Some s2 \<and>
      present (fst s2) (buildKey svcName sp) \<and>
      fmlookup (stalenessCounter (fst s2)) (buildKey svcName sp) = Some 2 \<and>
      run s2 (Collect o3 a3 t3 # es3) = Some s3 \<and>
      present (fst s3) (buildKey svcName sp) \<and>
      fmlookup (stalenessCounter (fst s3)) (buildKey svcName sp) = Some 3 \<and>
      run s3 (Collect o4 a4 t4 # es4) = Some s4 \<and>
      absent (fst s4) (buildKey svcName sp)) \<and>
    (\<exists>q1. aggregateMetricsForSpan q svcName sp = Some q1 \<and>
      fmlookup (stalenessCounter q1) (buildKey svcName sp) = Some 0) \<and>
    (\<exists>q2. aggregateMetricsForSpan q svcName' sp' = Some q2 \<and>
      fmlookup (stalenessCounter q2) (buildKey svcName sp) = Some c) \<and>
    (\<exists>q' out' err. CollectMetrics q o1 a1 t1 out0 = Some (q', out', err) \<and>
      fmlookup (stalenessCounter q') (buildKey svcName sp) =
        (if c + 1 < 4 then Some (c + 1) else None))"
proof (intro conjI)
  let ?k = "buildKey svcName sp"
  from run_span_then_others [OF assms(1,6), of out0] obtain p0 outa
    where r0: "run (p, out0) (Span svcName sp # es0) = Some (p0, outa)"
      and b0: "bucketShape (fst (p0, outa))" and pr0: "present (fst (p0, outa)) ?k"
      and c0: "fmlookup (stalenessCounter (fst (p0, outa))) ?k = Some 0"
    by auto
  from run_collect_keeps [OF b0 assms(2) pr0 c0 _ assms(7), of a1 t1] obtain s1
    where r1: "run (p0, outa) (Collect o1 a1 t1 # es1) = Some s1"
      and b1: "bucketShape (fst s1)" and pr1: "present (fst s1) ?k"
      and c1: "fmlookup (stalenessCounter (fst s1)) ?k = Some 1"
    by auto
  from run_collect_keeps [OF b1 assms(3) pr1 c1 _ assms(8), of a2 t2] obtain s2
    where r2: "run s1 (Collect o2 a2 t2 # es2) = Some s2"
      and b2: "bucketShape (fst s2)" and pr2: "present (fst s2) ?k"
      and c2: "fmlookup (stalenessCounter (fst s2)) ?k = Some 2"
    by auto
  from run_collect_keeps [OF b2 assms(4) pr2 c2 _ assms(9), of a3 t3] obtain s3
    where r3: "run s2 (Collect o3 a3 t3 # es3) = Some s3"
      and b3: "bucketShape (fst s3)" and pr3: "present (fst s3) ?k"
      and c3: "fmlookup (stalenessCounter (fst s3)) ?k = Some 3"
    by auto
  from run_collect_evicts [OF b3 assms(5) c3 _ assms(10), of a4 t4] obtain s4
    where r4: "run s3 (Collect o4 a4 t4 # es4) = Some s4" and ab: "absent (fst s4) ?k"
    by auto
  from r0 pr0 c0 r1 pr1 c1 r2 pr2 c2 r3 pr3 c3 r4 ab
  show "\<exists>s0 s1 s2 s3 s4.
      run (p, out0) (Span svcName sp # es0) = Some s0 \<and>
      present (fst s0) ?k \<and>
      fmlookup (stalenessCounter (fst s0)) ?k = Some 0 \<and>
      run s0 (Collect o1 a1 t1 # es1) = Some s1 \<and>
      present (fst s1) ?k \<and>
      fmlookup (stalenessCounter (fst s1)) ?k = Some 1 \<and>
      run s1 (Collect o2 a2 t2 # es2) = Some s2 \<and>
      present (fst s2) ?k \<and>
      fmlookup (stalenessCounter (fst s2)) ?k = Some 2 \<and>
      run s2 (Collect o3 a3 t3 # es3) = Some s3 \<and>
      present (fst s3) ?k \<and>
      fmlookup (stalenessCounter (fst s3)) ?k = Some 3 \<and>
      run s3 (Collect o4 a4 t4 # es4) = Some s4 \<and>
      absent (fst s4) ?k"
    by blast
next
  from span_step_total [OF assms(11)] obtain q1
    where q1: "aggregateMetricsForSpan q svcName sp = Some q1" by blast
  then show "\<exists>q1. aggregateMetricsForSpan q svcName sp = Some q1 \<and>
      fmlookup (stalenessCounter q1) (buildKey svcName sp) = Some 0"
    by (simp add: span_step_fields(6) [OF assms(11) q1])
next
  from span_step_total [OF assms(11)] obtain q2
    where q2: "aggregateMetricsForSpan q svcName' sp' = Some q2" by blast
  then show "\<exists>q2. aggregateMetricsForSpan q svcName' sp' = Some q2 \<and>
      fmlookup (stalenessCounter q2) (buildKey svcName sp) = Some c"
    by (simp add: span_other_key(1) [OF assms(11) q2 assms(13)] assms(12))
next
  from CollectMetrics_total [OF assms(11)] obtain out' err
    where "CollectMetrics q o1 a1 t1 out0 = Some (collected q o1, out', err)" by blast
  moreover note collected_stalenessCounter [OF assms(2,12)]
  ultimately show "\<exists>q' out' err. CollectMetrics q o1 a1 t1 out0 = Some (q', out', err) \<and>
      fmlookup (stalenessCounter q') (buildKey svcName sp) =
        (if c + 1 < 4 then Some (c + 1) else None)"
    by blast
qed

section \<open>The reachable states\<close>

lemma reachable_wellFormed: "reachable p \<Longrightarrow> wellFormed p"
proof (induction rule: reachable.induct)
  case (reachable_New tenant)
  show ?case by (rule wellFormed_New)
next
  case (reachable_span p svcName sp p')
  then show ?case by (simp add: span_step_wellFormed)
next
  case (reachable_Collect p ords appender timestampMs out p' out' err)
  from reachable_Collect.IH have "bucketShape p" by (simp add: wellFormed_def)
  from CollectMetrics_state [OF this reachable_Collect.hyps(3)]
  have "p' = collected p ords" by simp
  with reachable_Collect.IH reachable_Collect.hyps(2) show ?case
    by (simp add: collected_wellFormed)
qed

lemma reachable_staleness_bounds:
  "reachable p \<Longrightarrow> fmlookup (stalenessCounter p) k = Some c \<Longrightarrow> 0 \<le> c \<and> c < 4"
proof (induction arbitrary: k c rule: reachable.induct)
  case (reachable_New tenant)
  then show ?case by (simp add: New_def)
next
  case (reachable_span p svcName sp p')
  from reachable_span.hyps(1) have b: "bucketShape p"
    using reachable_wellFormed by (simp add: wellFormed_def)
  note f = span_step_fields(6) [OF b reachable_span.hyps(2)]
  from reachable_span.prems reachable_span.IH [of k c] show ?case
    by (simp add: f split: if_splits)
next
  case (reachable_Collect p ords appender timestampMs out p' out' err)
  from reachable_Collect.hyps(1) have b: "bucketShape p"
    using reachable_wellFormed by (simp add: wellFormed_def)
  from CollectMetrics_state [OF b reachable_Collect.hyps(3)]
  have p': "p' = collected p ords" by simp
  from reachable_Collect.hyps(2) have v: "validOrder (staleOrder ords)"
    by (simp add: validOrders_def)
  from reachable_Collect.prems
  have k: "k |\<in>| fmdom (stalenessCounter p)" and ne: "\<not> evicts p k"
    and c: "c = mapIndex (stalenessCounter p) k + 1"
    by (auto simp: p' collected_fields sweep_stalenessCounter [OF v] split: if_splits)
  from k obtain c0 where c0: "fmlookup (stalenessCounter p) k = Some c0"
    by (auto simp: fmlookup_dom_iff)
  with reachable_Collect.IH [OF c0] ne c show ?case
    by (simp add: evicts_iff [OF c0] mapIndex_def)
qed

text \<open>
  C8: in every reachable state a key is in the calls map if and only if it is in the map of
  latency counts, of latency sums, of bucket counts, in the label cache and in the map of
  staleness counters: it is in all six maps or in none.
\<close>

theorem reachable_all_or_nothing:
  assumes "reachable p"
  shows "(k |\<in>| fmdom (calls p)) = (k |\<in>| fmdom (latencyCount p)) \<and>
     (k |\<in>| fmdom (calls p)) = (k |\<in>| fmdom (latencySum p)) \<and>
     (k |\<in>| fmdom (calls p)) = (k |\<in>| fmdom (latencyBucketCounts p)) \<and>
     (k |\<in>| fmdom (calls p)) = (k |\<in>| fmdom (cache p)) \<and>
     (k |\<in>| fmdom (calls p)) = (k |\<in>| fmdom (stalenessCounter p)) \<and>
     (present p k \<or> absent p k)"
proof -
  from assms have "sameKeys p"
    using reachable_wellFormed by (simp add: wellFormed_def)
  then show ?thesis
    by (simp add: sameKeys_def present_def absent_def)
qed

section \<open>The active-series gauge\<close>

text \<open>
  C7: a collection sets the gauge to the number of keys of the store after its sweep: the
  keys of the calls map that the sweep did not evict, which then are the keys of every map.
  This holds whether or not the emission that follows fails.
\<close>

theorem gauge_counts_surviving_keys:
  assumes "wellFormed p" and "validOrders ords"
  shows "\<exists>p' out' err. CollectMetrics p ords a ts out = Some (p', out', err) \<and>
     gaugeValue (metricActiveSeries p') = real (fcard (fmdom (calls p'))) \<and>
     fmdom (calls p') = ffilter (\<lambda>k. \<not> evicts p k) (fmdom (calls p)) \<and>
     sameKeys p'"
proof -
  from assms(1) have b: "bucketShape p" by (simp add: wellFormed_def)
  from assms(2) have v: "validOrder (staleOrder ords)" by (simp add: validOrders_def)
  from CollectMetrics_total [OF b] obtain out' err
    where c: "CollectMetrics p ords a ts out = Some (collected p ords, out', err)" by blast
  have g: "gaugeValue (metricActiveSeries (collected p ords)) =
      real (fcard (fmdom (calls (collected p ords))))"
    by (simp add: collected_def Set_gauge_def)
  have d: "fmdom (calls (collected p ords)) = ffilter (\<lambda>k. \<not> evicts p k) (fmdom (calls p))"
    by (rule fset_eqI) (simp add: in_fmdom_iff collected_fields sweep_maps [OF v])
  have s: "sameKeys (collected p ords)"
    using collected_wellFormed [OF assms(2,1)] by (simp add: wellFormed_def)
  from c g d s show ?thesis by blast
qed

section \<open>A concrete run\<close>

lemma buildKey_shop: "buildKey ''shop'' span20 = shopKey"
  by (simp add: buildKey_def buildKeyWith_def span20_def shopKey_def Status_String_def)

lemma buildKey_cart: "buildKey ''cart'' span20 \<noteq> buildKey ''shop'' span20"
  by (simp add: buildKey_def buildKeyWith_def)

lemma otherSpans_cart: "otherSpans (buildKey ''shop'' span20) [Span ''cart'' span20]"
  using buildKey_cart by simp

lemma otherSpans_Nil: "otherSpans k []"
  by simp

lemma upt_6: "[0..<6] = [0, 1, 2, 3, 4, 5]"
  by code_simp

lemma incremented_zeros: "incremented [0, 0, 0, 0, 0, 0] 2 = [1, 1, 0, 0, 0, 0]"
  by (simp add: incremented_def upt_6)

lemma first_span: "aggregateMetricsForSpan (New ''t'') ''shop'' span20 = Some afterOneSpan"
proof -
  have l: "length (countsOrNew (New ''t'') (buildKey ''shop'' span20)) =
      length (latencyBuckets (New ''t'')) + 1"
    using bucketShape_New by (rule countsOrNew_length)
  have c: "countsOrNew (New ''t'') shopKey = [0, 0, 0, 0, 0, 0]"
    by (simp add: countsOrNew_def New_def)
  have b: "latencyBuckets (New ''t'') = [1, 10, 50, 100, 500]"
    by (simp add: New_def)
  have m: "mapIndex (calls (New ''t'')) shopKey = 0" "mapIndex (latencyCount (New ''t'')) shopKey = 0"
    "mapIndex (latencySum (New ''t'')) shopKey = 0"
    by (simp_all add: New_def mapIndex_def)
  show ?thesis
    unfolding aggregateMetricsForSpan_eq [OF l] buildKey_shop latencyMS_span20 c b
      SearchFloat64s_default_20 incremented_zeros m float64_add_small(1)
    by (simp add: New_def afterOneSpan_def span20_def)
qed

lemma reachable_afterOneSpan: "reachable afterOneSpan"
  using reachable_New [of "''t''"] first_span by (rule reachable_span)

lemma wellFormed_afterOneSpan: "wellFormed afterOneSpan"
  using reachable_afterOneSpan by (rule reachable_wellFormed)

lemma bucketShape_afterOneSpan: "bucketShape afterOneSpan"
  using wellFormed_afterOneSpan by (simp add: wellFormed_def)


lemma stalenessCounter_afterOneSpan: "fmlookup (stalenessCounter afterOneSpan) shopKey = Some 0"
  by (simp add: afterOneSpan_def)

lemma stalenessCounter_afterOneSpan':
  "fmlookup (stalenessCounter afterOneSpan) (buildKey ''shop'' span20) = Some 0"
  by (simp add: buildKey_shop stalenessCounter_afterOneSpan)

theorem stale_key_evicted_by_fourth_collect_witness:
  "bucketShape (New ''t'') \<and> validOrders ascending \<and>
   otherSpans (buildKey ''shop'' span20) [Span ''cart'' span20] \<and>
   otherSpans (buildKey ''shop'' span20) [] \<and>
   bucketShape afterOneSpan \<and>
   fmlookup (stalenessCounter afterOneSpan) (buildKey ''shop'' span20) = Some 0 \<and>
   buildKey ''cart'' span20 \<noteq> buildKey ''shop'' span20 \<and>
   (\<exists>s0 s1 s2 s3 s4.
      run (New ''t'', []) (Span ''shop'' span20 # [Span ''cart'' span20]) = Some s0 \<and>
      present (fst s0) (buildKey ''shop'' span20) \<and>
      fmlookup (stalenessCounter (fst s0)) (buildKey ''shop'' span20) = Some 0 \<and>
      run s0 (Collect ascending acceptAll 15000 # []) = Some s1 \<and>
      present (fst s1) (buildKey ''shop'' span20) \<and>
      fmlookup (stalenessCounter (fst s1)) (buildKey ''shop'' span20) = Some 1 \<and>
      run s1 (Collect ascending refuseAll 30000 # [Span ''cart'' span20]) = Some s2 \<and>
      present (fst s2) (buildKey ''shop'' span20) \<and>
      fmlookup (stalenessCounter (fst s2)) (buildKey ''shop'' span20) = Some 2 \<and>
      run s2 (Collect ascending acceptAll 45000 # []) = Some s3 \<and>
      present (fst s3) (buildKey ''shop'' span20) \<and>
      fmlookup (stalenessCounter (fst s3)) (buildKey ''shop'' span20) = Some 3 \<and>
      run s3 (Collect ascending acceptAll 60000 # [Span ''cart'' span20]) = Some s4 \<and>
      absent (fst s4) (buildKey ''shop'' span20)) \<and>
   (\<exists>q1. aggregateMetricsForSpan afterOneSpan ''shop'' span20 = Some q1 \<and>
      fmlookup (stalenessCounter q1) (buildKey ''shop'' span20) = Some 0) \<and>
   (\<exists>q2. aggregateMetricsForSpan afterOneSpan ''cart'' span20 = Some q2 \<and>
      fmlookup (stalenessCounter q2) (buildKey ''shop'' span20) = Some 0) \<and>
   (\<exists>q' out' err. CollectMetrics afterOneSpan ascending acceptAll 15000 [] = Some (q', out', err) \<and>
      fmlookup (stalenessCounter q') (buildKey ''shop'' span20) =
        (if (0::int) + 1 < 4 then Some (0 + 1) else None))"
proof -
  note h = bucketShape_New [of "''t''"] validOrders_ascending otherSpans_cart
    otherSpans_Nil [of "buildKey ''shop'' span20"] bucketShape_afterOneSpan
    stalenessCounter_afterOneSpan' buildKey_cart
  note t = stale_key_evicted_by_fourth_collect
    [OF h(1) h(2) h(2) h(2) h(2) h(3) h(4) h(3) h(4) h(3) h(5) h(6) h(7),
      where ?a1.0 = acceptAll and ?a2.0 = refuseAll
        and ?a3.0 = acceptAll and ?a4.0 = acceptAll and ?t1.0 = 15000 and ?t2.0 = 30000
        and ?t3.0 = 45000 and ?t4.0 = 60000 and ?out0.0 = "[]"]
  show ?thesis
    by (intro conjI h t [THEN conjunct1] t [THEN conjunct2, THEN conjunct1]
        t [THEN conjunct2, THEN conjunct2, THEN conjunct1]
        t [THEN conjunct2, THEN conjunct2, THEN conjunct2])
qed

theorem reachable_all_or_nothing_witness:
  "reachable afterOneSpan \<and>
   (shopKey |\<in>| fmdom (calls afterOneSpan)) = (shopKey |\<in>| fmdom (latencyCount afterOneSpan)) \<and>
   (shopKey |\<in>| fmdom (calls afterOneSpan)) = (shopKey |\<in>| fmdom (latencySum afterOneSpan)) \<and>
   (shopKey |\<in>| fmdom (calls afterOneSpan)) =
     (shopKey |\<in>| fmdom (latencyBucketCounts afterOneSpan)) \<and>
   (shopKey |\<in>| fmdom (calls afterOneSpan)) = (shopKey |\<in>| fmdom (cache afterOneSpan)) \<and>
   (shopKey |\<in>| fmdom (calls afterOneSpan)) =
     (shopKey |\<in>| fmdom (stalenessCounter afterOneSpan)) \<and>
   (present afterOneSpan shopKey \<or> absent afterOneSpan shopKey)"
  by (rule conjI [OF reachable_afterOneSpan
        reachable_all_or_nothing [OF reachable_afterOneSpan, of shopKey]])

theorem gauge_counts_surviving_keys_witness:
  "wellFormed afterOneSpan \<and> validOrders ascending \<and>
   (\<exists>p' out' err. CollectMetrics afterOneSpan ascending acceptAll 15000 [] = Some (p', out', err) \<and>
     gaugeValue (metricActiveSeries p') = real (fcard (fmdom (calls p'))) \<and>
     fmdom (calls p') = ffilter (\<lambda>k. \<not> evicts afterOneSpan k) (fmdom (calls afterOneSpan)) \<and>
     sameKeys p')"
  by (intro conjI wellFormed_afterOneSpan validOrders_ascending
      gauge_counts_surviving_keys [OF wellFormed_afterOneSpan validOrders_ascending])

section \<open>Resources without a service name\<close>

lemma getServiceName_loop_find:
  "getServiceName_loop attrs =
     (case find (\<lambda>a. Key a = AttributeServiceName) attrs of
        None \<Rightarrow> '''' | Some a \<Rightarrow> GetStringValue (Value a))"
  by (induction attrs) simp_all

lemma getServiceName_find:
  "getServiceName rs =
     (case find (\<lambda>a. Key a = AttributeServiceName) (Attributes rs) of
        None \<Rightarrow> '''' | Some a \<Rightarrow> GetStringValue (Value a))"
  by (simp add: getServiceName_def getServiceName_loop_find)

lemma GetStringValue_empty_iff:
  "GetStringValue x = '''' \<longleftrightarrow> x = StringValue '''' \<or> (\<forall>s. x \<noteq> StringValue s)"
  by (cases x) simp_all

lemma forEach_append:
  "forEach body s (xs @ ys) =
     (case forEach body s xs of None \<Rightarrow> None | Some s' \<Rightarrow> forEach body s' ys)"
  by (induction xs arbitrary: s) (simp_all split: option.splits)

lemma aggregateResourceSpans_unnamed:
  "getServiceName (Resource rs) = '''' \<Longrightarrow> aggregateResourceSpans p rs = Some p"
  by (simp add: aggregateResourceSpans_def)

lemma aggregateMetrics_skip:
  assumes "getServiceName (Resource rs) = ''''"
  shows "aggregateMetrics p (before @ rs # after) = aggregateMetrics p (before @ after)"
proof (cases "forEach aggregateResourceSpans p before")
  case None
  then show ?thesis
    by (simp add: aggregateMetrics_def forEach_append)
next
  case (Some p1)
  then show ?thesis
    by (simp add: aggregateMetrics_def forEach_append aggregateResourceSpans_unnamed [OF assms])
qed

text \<open>
  C10: the service name is looked up once per resource. When the attributes of a resource
  have no service-name attribute, or the first one carries the empty string or a value that
  is not a string, the resource changes nothing: all spans of all its
  instrumentation-library groups are skipped, a batch with the resource is handled like the
  batch without it, and \<open>PushSpans\<close> returns \<open>nil\<close>.
\<close>

theorem resource_without_service_name_is_dropped:
  assumes "case find (\<lambda>a. Key a = AttributeServiceName) (Attributes (Resource rs)) of
             None \<Rightarrow> True
           | Some a \<Rightarrow> Value a = StringValue '''' \<or> (\<forall>s. Value a \<noteq> StringValue s)"
  shows "aggregateResourceSpans p rs = Some p \<and>
     aggregateMetrics p (before @ rs # after) = aggregateMetrics p (before @ after) \<and>
     PushSpans p \<lparr>Batches = before @ rs # after\<rparr> = PushSpans p \<lparr>Batches = before @ after\<rparr> \<and>
     PushSpans p \<lparr>Batches = [rs]\<rparr> = Some (p, None)"
proof -
  from assms have n: "getServiceName (Resource rs) = ''''"
    by (simp add: getServiceName_find GetStringValue_empty_iff split: option.splits)
  have 1: "aggregateResourceSpans p rs = Some p"
    using n by (rule aggregateResourceSpans_unnamed)
  have 2: "aggregateMetrics p (before @ rs # after) = aggregateMetrics p (before @ after)"
    using n by (rule aggregateMetrics_skip)
  have 3: "PushSpans p \<lparr>Batches = before @ rs # after\<rparr> = PushSpans p \<lparr>Batches = before @ after\<rparr>"
    by (simp add: PushSpans_def 2)
  have 4: "PushSpans p \<lparr>Batches = [rs]\<rparr> = Some (p, None)"
    by (simp add: PushSpans_def aggregateMetrics_def 1)
  from 1 2 3 4 show ?thesis by (intro conjI)
qed

theorem resource_without_service_name_is_dropped_witness:
  "find (\<lambda>a. Key a = AttributeServiceName) (Attributes (Resource unnamedResourceSpans)) =
     Some \<lparr> Key = ''service.name'', Value = IntValue 7 \<rparr> \<and>
   aggregateResourceSpans afterOneSpan unnamedResourceSpans = Some afterOneSpan \<and>
   aggregateMetrics afterOneSpan ([] @ unnamedResourceSpans # []) =
     aggregateMetrics afterOneSpan ([] @ []) \<and>
   PushSpans afterOneSpan \<lparr>Batches = [] @ unnamedResourceSpans # []\<rparr> =
     PushSpans afterOneSpan \<lparr>Batches = [] @ []\<rparr> \<and>
   PushSpans afterOneSpan \<lparr>Batches = [unnamedResourceSpans]\<rparr> = Some (afterOneSpan, None)"
proof -
  have f: "find (\<lambda>a. Key a = AttributeServiceName) (Attributes (Resource unnamedResourceSpans)) =
     Some \<lparr> Key = ''service.name'', Value = IntValue 7 \<rparr>"
    by (simp add: unnamedResourceSpans_def AttributeServiceName_def)
  have h: "case find (\<lambda>a. Key a = AttributeServiceName) (Attributes (Resource unnamedResourceSpans)) of
             None \<Rightarrow> True
           | Some a \<Rightarrow> Value a = StringValue '''' \<or> (\<forall>s. Value a \<noteq> StringValue s)"
    unfolding f by simp
  show ?thesis
    by (rule conjI [OF f resource_without_service_name_is_dropped [OF h]])
qed

section \<open>The samples of a collection\<close>

lemma validOrder_length: "validOrder ord \<Longrightarrow> length (ord S) = fcard S"
proof -
  assume v: "validOrder ord"
  then have "fcard S = fcard (fset_of_list (ord S))" by (simp add: validOrder_def)
  also have "\<dots> = card (set (ord S))" by (simp add: fcard.rep_eq fset_of_list.rep_eq)
  also have "\<dots> = length (ord S)" using v by (simp add: validOrder_def distinct_card)
  finally show ?thesis by simp
qed

lemma count_list_distinct: "distinct xs \<Longrightarrow> k \<in> set xs \<Longrightarrow> count_list xs k = 1"
  by (induction xs) auto

lemma validOrder_count: "validOrder ord \<Longrightarrow> k |\<in>| S \<Longrightarrow> count_list (ord S) k = 1"
  by (simp add: count_list_distinct validOrder_distinct validOrder_set)

lemma length_concat_const:
  "(\<And>x. x \<in> set xs \<Longrightarrow> length (f x) = c) \<Longrightarrow> length (concat (map f xs)) = length xs * c"
  by (induction xs) simp_all

lemma length_bucketSamples [simp]: "length (bucketSamples p ts key i counts) = length counts"
  by (induction counts arbitrary: i) simp_all

lemma map_v_bucketSamples [simp]: "map v (bucketSamples p ts key i counts) = counts"
  by (induction counts arbitrary: i) (simp_all add: bucketSample_def)

lemma nth_bucketSamples:
  "j < length counts \<Longrightarrow>
   bucketSamples p ts key i counts ! j = bucketSample p ts key (i + j) (counts ! j)"
proof (induction counts arbitrary: i j)
  case Nil
  then show ?case by simp
next
  case (Cons c counts)
  then show ?case by (cases j) simp_all
qed

lemma last_bucketSamples:
  "counts \<noteq> [] \<Longrightarrow>
   last (bucketSamples p ts key i counts) =
     bucketSample p ts key (i + (length counts - 1)) (last counts)"
proof -
  assume ne: "counts \<noteq> []"
  then have "bucketSamples p ts key i counts \<noteq> []"
    by (cases counts) simp_all
  then have "last (bucketSamples p ts key i counts) =
      bucketSamples p ts key i counts ! (length counts - 1)"
    by (simp add: last_conv_nth)
  also have "\<dots> = bucketSample p ts key (i + (length counts - 1)) (counts ! (length counts - 1))"
    using ne by (intro nth_bucketSamples) simp
  finally show ?thesis
    using ne by (simp add: last_conv_nth)
qed

lemma wellFormed_slice:
  assumes "wellFormed p" and "k |\<in>| fmdom (calls p)"
  shows "length (sliceIndex (latencyBucketCounts p) k) = length (latencyBuckets p) + 1"
proof -
  from assms have "k |\<in>| fmdom (latencyBucketCounts p)"
    by (simp add: wellFormed_def sameKeys_def)
  then obtain counts where c: "fmlookup (latencyBucketCounts p) k = Some counts"
    by (auto simp: fmlookup_dom_iff)
  with assms(1) show ?thesis
    by (simp add: wellFormed_def bucketShape_def sliceIndex_def)
qed

lemma length_latencySamples:
  "wellFormed p \<Longrightarrow> k |\<in>| fmdom (calls p) \<Longrightarrow>
   length (latencySamples p ts k) = 2 + (length (latencyBuckets p) + 1)"
  by (simp add: latencySamples_def wellFormed_slice)

lemma last_latencySamples:
  assumes "wellFormed p" and "k |\<in>| fmdom (calls p)"
  shows "l (last (latencySamples p ts k)) = getLabels p k latencyBucketMetric @ [(''le'', ''+Inf'')]"
proof -
  let ?counts = "sliceIndex (latencyBucketCounts p) k"
  have len: "length ?counts = length (latencyBuckets p) + 1"
    using assms by (rule wellFormed_slice)
  then have ne: "?counts \<noteq> []" by auto
  then have "bucketSamples p ts k 0 ?counts \<noteq> []"
    by (cases ?counts) simp_all
  then have "last (latencySamples p ts k) = last (bucketSamples p ts k 0 ?counts)"
    by (simp add: latencySamples_def)
  also have "\<dots> = bucketSample p ts k (length (latencyBuckets p)) (last ?counts)"
    using last_bucketSamples [OF ne, of p ts k 0] len by simp
  finally show ?thesis
    by (simp add: bucketSample_def leValue_def)
qed

lemma cycleSamples_sameKeys:
  "wellFormed p \<Longrightarrow>
   cycleSamples p ords ts =
     map (callsSample p ts) (callsOrder ords (fmdom (calls p))) @
     concat (map (latencySamples p ts) (latencyOrder ords (fmdom (calls p))))"
  by (simp add: cycleSamples_def wellFormed_def sameKeys_def)

lemma length_cycleSamples:
  assumes "wellFormed p" and "validOrders ords"
  shows "length (cycleSamples p ords ts) =
     fcard (fmdom (calls p)) * (3 + (length (latencyBuckets p) + 1))"
proof -
  from assms(2) have v: "validOrder (callsOrder ords)" "validOrder (latencyOrder ords)"
    by (simp_all add: validOrders_def)
  have "length (concat (map (latencySamples p ts) (latencyOrder ords (fmdom (calls p))))) =
      length (latencyOrder ords (fmdom (calls p))) * (2 + (length (latencyBuckets p) + 1))"
    by (rule length_concat_const)
      (simp add: length_latencySamples [OF assms(1)] validOrder_set [OF v(2)])
  then show ?thesis
    by (simp add: cycleSamples_sameKeys [OF assms(1)] validOrder_length [OF v(1)]
        validOrder_length [OF v(2)] algebra_simps)
qed

lemma collect_never_fails:
  assumes "bucketShape p" and "\<forall>h s. a h s = None"
  shows "CollectMetrics p ords a ts out =
     Some (collected p ords, out @ cycleSamples (collected p ords) ords ts, None)"
  by (simp add: CollectMetrics_eq [OF assms(1)] appendAll_never_fails [OF assms(2)])

text \<open>
  C5 (as stated, refuted): the processor with one key and the five default boundaries emits
  9 samples in a collection against a sink that never fails, not \<open>2 + (5 + 1) = 8\<close>.
\<close>

theorem collect_one_key_nine_appends:
  "(case CollectMetrics afterOneSpan ascending acceptAll 15000 [] of
      None \<Rightarrow> False
    | Some (p', out', err) \<Rightarrow>
        err = None \<and> fcard (fmdom (calls p')) = 1 \<and> length (latencyBuckets p') = 5 \<and>
        length out' = 9 \<and>
        length out' \<noteq> fcard (fmdom (calls p')) * (2 + (length (latencyBuckets p') + 1)))"
proof -
  let ?p' = "collected afterOneSpan ascending"
  have a: "\<forall>h s. acceptAll h s = None" by (simp add: acceptAll_def)
  have w: "wellFormed ?p'"
    using validOrders_ascending wellFormed_afterOneSpan by (rule collected_wellFormed)
  have ne: "\<not> evicts afterOneSpan k" for k
    by (simp add: evicts_def afterOneSpan_def mapIndex_def)
  have "fmdom (calls ?p') = fmdom (calls afterOneSpan)"
    by (rule fset_eqI)
      (simp add: in_fmdom_iff collected_fields sweep_maps [OF validOrder_ascending]
        ascending_def ne)
  then have d: "fmdom (calls ?p') = {|shopKey|}"
    by (simp add: afterOneSpan_def)
  have b: "length (latencyBuckets ?p') = 5"
    by (simp add: collected_fields afterOneSpan_def)
  have n: "length (cycleSamples ?p' ascending 15000) = 9"
    by (simp add: length_cycleSamples [OF w validOrders_ascending] d b fcard_finsert_if fcard_fempty)
  show ?thesis
    by (simp add: collect_never_fails [OF bucketShape_afterOneSpan a] n d b fcard_finsert_if fcard_fempty)
qed

text \<open>
  C5 (amended): a collection against a sink whose \<open>Append\<close> never fails performs exactly
  \<open>3 + (numBuckets + 1)\<close> calls of \<open>Append\<close> per live key: for each key once a calls sample,
  and for each key once a latency-count sample, a latency-sum sample and one sample per
  bucket count, of which there are \<open>numBuckets + 1\<close>, the last one with the \<open>le\<close> label
  \<open>+Inf\<close>.
\<close>

theorem collect_appends_per_key:
  assumes "wellFormed p" and "validOrders ords" and "\<forall>h s. a h s = None"
  shows "\<exists>p'. CollectMetrics p ords a ts out = Some (p', out @ cycleSamples p' ords ts, None) \<and>
     length (cycleSamples p' ords ts) =
       fcard (fmdom (calls p')) * (3 + (length (latencyBuckets p') + 1)) \<and>
     cycleSamples p' ords ts =
       map (callsSample p' ts) (callsOrder ords (fmdom (calls p'))) @
       concat (map (latencySamples p' ts) (latencyOrder ords (fmdom (calls p')))) \<and>
     (\<forall>k. k |\<in>| fmdom (calls p') \<longrightarrow>
        count_list (callsOrder ords (fmdom (calls p'))) k = 1 \<and>
        count_list (latencyOrder ords (fmdom (calls p'))) k = 1 \<and>
        length (latencySamples p' ts k) = 2 + (length (latencyBuckets p') + 1) \<and>
        l (last (latencySamples p' ts k)) =
          getLabels p' k latencyBucketMetric @ [(''le'', ''+Inf'')])"
proof -
  let ?p' = "collected p ords"
  from assms(1) have b: "bucketShape p" by (simp add: wellFormed_def)
  from assms(2) have v: "validOrder (callsOrder ords)" "validOrder (latencyOrder ords)"
    by (simp_all add: validOrders_def)
  have w: "wellFormed ?p'"
    using assms(2,1) by (rule collected_wellFormed)
  have 1: "CollectMetrics p ords a ts out = Some (?p', out @ cycleSamples ?p' ords ts, None)"
    using b assms(3) by (rule collect_never_fails)
  have 2: "length (cycleSamples ?p' ords ts) =
       fcard (fmdom (calls ?p')) * (3 + (length (latencyBuckets ?p') + 1))"
    using w assms(2) by (rule length_cycleSamples)
  have 3: "cycleSamples ?p' ords ts =
       map (callsSample ?p' ts) (callsOrder ords (fmdom (calls ?p'))) @
       concat (map (latencySamples ?p' ts) (latencyOrder ords (fmdom (calls ?p'))))"
    using w by (rule cycleSamples_sameKeys)
  have 4: "\<forall>k. k |\<in>| fmdom (calls ?p') \<longrightarrow>
        count_list (callsOrder ords (fmdom (calls ?p'))) k = 1 \<and>
        count_list (latencyOrder ords (fmdom (calls ?p'))) k = 1 \<and>
        length (latencySamples ?p' ts k) = 2 + (length (latencyBuckets ?p') + 1) \<and>
        l (last (latencySamples ?p' ts k)) =
          getLabels ?p' k latencyBucketMetric @ [(''le'', ''+Inf'')]"
    using validOrder_count [OF v(1)] validOrder_count [OF v(2)]
      length_latencySamples [OF w] last_latencySamples [OF w]
    by simp
  from 1 2 3 4 show ?thesis
    by (intro exI [of _ ?p'] conjI)
qed

theorem collect_appends_per_key_witness:
  "wellFormed afterOneSpan \<and> validOrders ascending \<and>
   (\<exists>p'. CollectMetrics afterOneSpan ascending acceptAll 15000 [] =
       Some (p', [] @ cycleSamples p' ascending 15000, None) \<and>
     length (cycleSamples p' ascending 15000) =
       fcard (fmdom (calls p')) * (3 + (length (latencyBuckets p') + 1)) \<and>
     cycleSamples p' ascending 15000 =
       map (callsSample p' 15000) (callsOrder ascending (fmdom (calls p'))) @
       concat (map (latencySamples p' 15000) (latencyOrder ascending (fmdom (calls p')))) \<and>
     (\<forall>k. k |\<in>| fmdom (calls p') \<longrightarrow>
        count_list (callsOrder ascending (fmdom (calls p'))) k = 1 \<and>
        count_list (latencyOrder ascending (fmdom (calls p'))) k = 1 \<and>
        length (latencySamples p' 15000 k) = 2 + (length (latencyBuckets p') + 1) \<and>
        l (last (latencySamples p' 15000 k)) =
          getLabels p' k latencyBucketMetric @ [(''le'', ''+Inf'')]))"
proof -
  have a: "\<forall>h s. acceptAll h s = None" by (simp add: acceptAll_def)
  show ?thesis
    by (intro conjI wellFormed_afterOneSpan validOrders_ascending
        collect_appends_per_key [OF wellFormed_afterOneSpan validOrders_ascending a])
qed

section \<open>The overflow bucket\<close>

lemma digit_not_f: "d < 10 \<Longrightarrow> digit d \<noteq> CHR ''f''"
proof -
  assume "d < 10"
  then have "d \<in> {0, 1, 2, 3, 4, 5, 6, 7, 8, 9}" by auto
  then show ?thesis
    by (auto simp: digit_def char_of_def)
qed

lemma last_natDigits: "last (natDigits n) = digit (n mod 10)"
  by (subst natDigits.simps) simp

lemma natDigits_not_Inf: "natDigits n \<noteq> ''+Inf''"
proof
  assume "natDigits n = ''+Inf''"
  then have "last (natDigits n) = CHR ''f''" by simp
  then have "digit (n mod 10) = CHR ''f''" by (simp add: last_natDigits)
  moreover have "n mod 10 < 10" by simp
  ultimately show False using digit_not_f by blast
qed

lemma Itoa_not_Inf: "Itoa i \<noteq> ''+Inf''"
  by (simp add: Itoa_def natDigits_not_Inf)

lemma leValue_Inf_iff: "leValue p i = ''+Inf'' \<longleftrightarrow> i = length (latencyBuckets p)"
  by (simp add: leValue_def Itoa_not_Inf)

lemma incremented_overflow:
  "idx \<le> n \<Longrightarrow> n < length counts \<Longrightarrow> incremented counts idx ! n = counts ! n"
  by (simp add: nth_incremented)

lemma countsOrNew_overflow:
  assumes "overflowZero p"
  shows "countsOrNew p key ! length (latencyBuckets p) = 0"
proof (cases "fmlookup (latencyBucketCounts p) key")
  case None
  have "replicate (length (latencyBuckets p) + 1) (0::real) ! length (latencyBuckets p) = 0"
    by (rule nth_replicate) simp
  with None show ?thesis
    by (simp add: countsOrNew_def in_fmdom_iff del: replicate.simps replicate_Suc)
next
  case (Some counts)
  with assms show ?thesis
    by (simp add: countsOrNew_def in_fmdom_iff sliceIndex_def overflowZero_def)
qed

lemma span_step_overflow_unchanged:
  assumes "bucketShape p" and "aggregateMetricsForSpan p svcName sp = Some p'"
  shows "sliceIndex (latencyBucketCounts p') (buildKey svcName sp) ! length (latencyBuckets p) =
     countsOrNew p (buildKey svcName sp) ! length (latencyBuckets p)"
  using SearchFloat64s_le [of "latencyBuckets p" "latencyMS sp"]
  by (simp add: span_step_fields(4) [OF assms] incremented_overflow
      countsOrNew_length [OF assms(1)])

lemma span_step_overflowZero:
  assumes "bucketShape p" and "overflowZero p" and "aggregateMetricsForSpan p svcName sp = Some p'"
  shows "overflowZero p'"
  unfolding overflowZero_def
proof (intro allI impI)
  fix k counts
  assume l: "fmlookup (latencyBucketCounts p') k = Some counts"
  note f = span_step_fields [OF assms(1,3)]
  show "counts ! length (latencyBuckets p') = 0"
  proof (cases "k = buildKey svcName sp")
    case True
    with l have "counts = sliceIndex (latencyBucketCounts p') (buildKey svcName sp)"
      by (simp add: sliceIndex_def)
    then show ?thesis
      by (simp add: f(7) span_step_overflow_unchanged [OF assms(1,3)]
          countsOrNew_overflow [OF assms(2)])
  next
    case False
    with l have "fmlookup (latencyBucketCounts p) k = Some counts"
      by (simp add: f(4))
    with assms(2) show ?thesis
      by (simp add: overflowZero_def f(7))
  qed
qed

lemma span_step_cacheWithoutLe:
  assumes "bucketShape p" and "cacheWithoutLe p" and "aggregateMetricsForSpan p svcName sp = Some p'"
  shows "cacheWithoutLe p'"
  using assms(2)
  by (auto simp: cacheWithoutLe_def span_step_fields(5) [OF assms(1,3)] split: if_splits)

lemma collected_overflowZero:
  assumes "validOrders ords" and "overflowZero p"
  shows "overflowZero (collected p ords)"
proof -
  from assms(1) have v: "validOrder (staleOrder ords)" by (simp add: validOrders_def)
  from assms(2) show ?thesis
    by (simp add: overflowZero_def collected_fields sweep_maps [OF v] split: if_splits)
qed

lemma collected_cacheWithoutLe:
  assumes "validOrders ords" and "cacheWithoutLe p"
  shows "cacheWithoutLe (collected p ords)"
proof -
  from assms(1) have v: "validOrder (staleOrder ords)" by (simp add: validOrders_def)
  from assms(2) show ?thesis
    by (simp add: cacheWithoutLe_def collected_fields sweep_maps [OF v] split: if_splits)
qed

lemma reachable_overflow: "reachable p \<Longrightarrow> overflowZero p \<and> cacheWithoutLe p"
proof (induction rule: reachable.induct)
  case (reachable_New tenant)
  show ?case by (simp add: overflowZero_def cacheWithoutLe_def New_def)
next
  case (reachable_span p svcName sp p')
  from reachable_span.hyps(1) have b: "bucketShape p"
    using reachable_wellFormed by (simp add: wellFormed_def)
  from reachable_span.IH reachable_span.hyps(2) b show ?case
    by (simp add: span_step_overflowZero [of p svcName sp p']
        span_step_cacheWithoutLe [of p svcName sp p'])
next
  case (reachable_Collect p ords appender timestampMs out p' out' err)
  from reachable_Collect.hyps(1) have b: "bucketShape p"
    using reachable_wellFormed by (simp add: wellFormed_def)
  from CollectMetrics_state [OF b reachable_Collect.hyps(3)]
  have "p' = collected p ords" by simp
  with reachable_Collect.IH reachable_Collect.hyps(2) show ?case
    by (simp add: collected_overflowZero collected_cacheWithoutLe)
qed

lemma getLabels_without_le:
  "cacheWithoutLe p \<Longrightarrow> (''le'', ''+Inf'') \<notin> set (getLabels p key metricName)"
  by (auto simp: getLabels_def sliceIndex_def cacheWithoutLe_def split: option.splits)

lemma bucketSamples_overflow:
  assumes "cacheWithoutLe p" and "length counts = length (latencyBuckets p) + 1"
    and "counts ! length (latencyBuckets p) = 0"
    and "s \<in> set (bucketSamples p ts key 0 counts)" and "(''le'', ''+Inf'') \<in> set (l s)"
  shows "v s = 0"
proof -
  from assms(4) obtain j where j: "j < length counts"
    and s: "s = bucketSamples p ts key 0 counts ! j"
    by (auto simp: in_set_conv_nth)
  then have s': "s = bucketSample p ts key j (counts ! j)"
    by (simp add: nth_bucketSamples)
  with assms(5) getLabels_without_le [OF assms(1), of key latencyBucketMetric]
  have "leValue p j = ''+Inf''"
    by (auto simp: bucketSample_def)
  then have "j = length (latencyBuckets p)"
    by (simp add: leValue_Inf_iff)
  with s' assms(3) show ?thesis
    by (simp add: bucketSample_def)
qed

lemma latencySamples_overflow:
  assumes "wellFormed p" and "overflowZero p" and "cacheWithoutLe p"
    and "k |\<in>| fmdom (calls p)"
    and "s \<in> set (latencySamples p ts k)" and "(''le'', ''+Inf'') \<in> set (l s)"
  shows "v s = 0"
proof -
  let ?counts = "sliceIndex (latencyBucketCounts p) k"
  have len: "length ?counts = length (latencyBuckets p) + 1"
    using assms(1,4) by (rule wellFormed_slice)
  from assms(1,4) have "k |\<in>| fmdom (latencyBucketCounts p)"
    by (simp add: wellFormed_def sameKeys_def)
  then obtain counts where c: "fmlookup (latencyBucketCounts p) k = Some counts"
    by (auto simp: fmlookup_dom_iff)
  with assms(2) have z: "?counts ! length (latencyBuckets p) = 0"
    by (simp add: overflowZero_def sliceIndex_def)
  from assms(5,6) getLabels_without_le [OF assms(3)]
  have "s \<in> set (bucketSamples p ts k 0 ?counts)"
    by (auto simp: latencySamples_def)
  from bucketSamples_overflow [OF assms(3) len z this assms(6)] show ?thesis .
qed

lemma cycleSamples_overflow:
  assumes "wellFormed p" and "overflowZero p" and "cacheWithoutLe p" and "validOrders ords"
    and "s \<in> set (cycleSamples p ords ts)" and "(''le'', ''+Inf'') \<in> set (l s)"
  shows "v s = 0"
proof -
  from assms(4) have vo: "validOrder (latencyOrder ords)" by (simp add: validOrders_def)
  from assms(5) consider
      k where "s = callsSample p ts k"
    | k where "k \<in> set (latencyOrder ords (fmdom (calls p)))" "s \<in> set (latencySamples p ts k)"
    by (auto simp: cycleSamples_sameKeys [OF assms(1)])
  then show ?thesis
  proof cases
    case 1
    with assms(6) getLabels_without_le [OF assms(3)] show ?thesis
      by (auto simp: callsSample_def)
  next
    case 2
    from 2(1) have "k |\<in>| fmdom (calls p)"
      by (simp add: validOrder_set [OF vo])
    from latencySamples_overflow [OF assms(1-3) this 2(2) assms(6)] show ?thesis .
  qed
qed

lemma appendAll_subset:
  "appendAll a out ss = (out', err) \<Longrightarrow> set (drop (length out) out') \<subseteq> set ss"
proof (cases err)
  case None
  assume "appendAll a out ss = (out', err)"
  with None have "out' = out @ ss" by (simp add: appendAll_None)
  then show ?thesis by simp
next
  case (Some e)
  assume "appendAll a out ss = (out', err)"
  with Some appendAll_Some [of a out ss out' e] obtain n where "out' = out @ take (Suc n) ss"
    by auto
  then show ?thesis
    by (simp add: set_take_subset)
qed


lemma last_of_slice:
  "length counts = n + 1 \<Longrightarrow> last counts = counts ! n"
  by (cases "counts = []") (simp_all add: last_conv_nth)

text \<open>
  C9: in every reachable state the overflow count of every key, the last element of its
  slice of bucket counts, is 0: a span update leaves it as it was, since the insertion point
  is at most the number of boundaries; and every sample that a collection emits with the
  label \<open>le = +Inf\<close> has the value 0.
\<close>

theorem overflow_bucket_stays_zero:
  assumes "reachable p" and "validOrders ords"
  shows "(\<forall>k counts. fmlookup (latencyBucketCounts p) k = Some counts \<longrightarrow>
        length counts = length (latencyBuckets p) + 1 \<and> last counts = 0) \<and>
     (\<forall>svcName sp. \<exists>p1. aggregateMetricsForSpan p svcName sp = Some p1 \<and>
        last (sliceIndex (latencyBucketCounts p1) (buildKey svcName sp)) =
          last (countsOrNew p (buildKey svcName sp)) \<and>
        last (sliceIndex (latencyBucketCounts p1) (buildKey svcName sp)) = 0) \<and>
     (\<exists>p' out' err. CollectMetrics p ords a ts out = Some (p', out', err) \<and>
        (\<forall>s\<in>set (drop (length out) out'). (''le'', ''+Inf'') \<in> set (l s) \<longrightarrow> v s = 0))"
proof (intro conjI)
  from assms(1) have w: "wellFormed p" by (rule reachable_wellFormed)
  then have b: "bucketShape p" by (simp add: wellFormed_def)
  from assms(1) have z: "overflowZero p" and c: "cacheWithoutLe p"
    using reachable_overflow by simp_all
  show "\<forall>k counts. fmlookup (latencyBucketCounts p) k = Some counts \<longrightarrow>
        length counts = length (latencyBuckets p) + 1 \<and> last counts = 0"
  proof (intro allI impI)
    fix k counts
    assume l: "fmlookup (latencyBucketCounts p) k = Some counts"
    with b have len: "length counts = length (latencyBuckets p) + 1"
      by (simp add: bucketShape_def)
    moreover from l z have "counts ! length (latencyBuckets p) = 0"
      by (simp add: overflowZero_def)
    ultimately show "length counts = length (latencyBuckets p) + 1 \<and> last counts = 0"
      by (simp add: last_of_slice [OF len])
  qed
  show "\<forall>svcName sp. \<exists>p1. aggregateMetricsForSpan p svcName sp = Some p1 \<and>
        last (sliceIndex (latencyBucketCounts p1) (buildKey svcName sp)) =
          last (countsOrNew p (buildKey svcName sp)) \<and>
        last (sliceIndex (latencyBucketCounts p1) (buildKey svcName sp)) = 0"
  proof (intro allI)
    fix svcName sp
    let ?key = "buildKey svcName sp"
    from span_step_total [OF b] obtain p1
      where p1: "aggregateMetricsForSpan p svcName sp = Some p1" by blast
    have len0: "length (countsOrNew p ?key) = length (latencyBuckets p) + 1"
      using b by (rule countsOrNew_length)
    have len1: "length (sliceIndex (latencyBucketCounts p1) ?key) = length (latencyBuckets p) + 1"
      by (simp add: span_step_fields(4) [OF b p1] len0)
    have "last (sliceIndex (latencyBucketCounts p1) ?key) = last (countsOrNew p ?key)"
      by (simp add: last_of_slice [OF len0] last_of_slice [OF len1]
          span_step_overflow_unchanged [OF b p1])
    moreover have "last (countsOrNew p ?key) = 0"
      by (simp add: last_of_slice [OF len0] countsOrNew_overflow [OF z])
    ultimately show "\<exists>p1. aggregateMetricsForSpan p svcName sp = Some p1 \<and>
        last (sliceIndex (latencyBucketCounts p1) ?key) = last (countsOrNew p ?key) \<and>
        last (sliceIndex (latencyBucketCounts p1) ?key) = 0"
      using p1 by simp
  qed
  show "\<exists>p' out' err. CollectMetrics p ords a ts out = Some (p', out', err) \<and>
        (\<forall>s\<in>set (drop (length out) out'). (''le'', ''+Inf'') \<in> set (l s) \<longrightarrow> v s = 0)"
  proof -
    let ?p' = "collected p ords"
    from CollectMetrics_total [OF b] obtain out' err
      where r: "CollectMetrics p ords a ts out = Some (?p', out', err)" by blast
    from CollectMetrics_state [OF b r]
    have ap: "appendAll a out (cycleSamples ?p' ords ts) = (out', err)" by simp
    have w': "wellFormed ?p'" using assms(2) w by (rule collected_wellFormed)
    have z': "overflowZero ?p'" using assms(2) z by (rule collected_overflowZero)
    have c': "cacheWithoutLe ?p'" using assms(2) c by (rule collected_cacheWithoutLe)
    have "\<forall>s\<in>set (drop (length out) out'). (''le'', ''+Inf'') \<in> set (l s) \<longrightarrow> v s = 0"
    proof (intro ballI impI)
      fix s
      assume "s \<in> set (drop (length out) out')" and le: "(''le'', ''+Inf'') \<in> set (l s)"
      with appendAll_subset [OF ap] have "s \<in> set (cycleSamples ?p' ords ts)" by blast
      from cycleSamples_overflow [OF w' z' c' assms(2) this le] show "v s = 0" .
    qed
    with r show ?thesis by blast
  qed
qed

theorem overflow_bucket_stays_zero_witness:
  "reachable afterOneSpan \<and> validOrders ascending \<and>
   fmlookup (latencyBucketCounts afterOneSpan) shopKey = Some [1, 1, 0, 0, 0, 0] \<and>
   length [1, 1, 0, 0, 0, 0 :: real] = length (latencyBuckets afterOneSpan) + 1 \<and>
   last [1, 1, 0, 0, 0, 0 :: real] = 0 \<and>
   (\<exists>p1. aggregateMetricsForSpan afterOneSpan ''shop'' span20 = Some p1 \<and>
      last (sliceIndex (latencyBucketCounts p1) (buildKey ''shop'' span20)) =
        last (countsOrNew afterOneSpan (buildKey ''shop'' span20)) \<and>
      last (sliceIndex (latencyBucketCounts p1) (buildKey ''shop'' span20)) = 0) \<and>
   (\<exists>p' out' err. CollectMetrics afterOneSpan ascending acceptAll 15000 [] = Some (p', out', err) \<and>
      (\<forall>s\<in>set (drop (length ([] :: sample list)) out').
         (''le'', ''+Inf'') \<in> set (l s) \<longrightarrow> v s = 0))"
proof -
  note t = overflow_bucket_stays_zero [OF reachable_afterOneSpan validOrders_ascending,
      where a = acceptAll and ts = 15000 and out = "[]"]
  have lk: "fmlookup (latencyBucketCounts afterOneSpan) shopKey = Some [1, 1, 0, 0, 0, 0]"
    by (simp add: afterOneSpan_def)
  note ab = t [THEN conjunct1, THEN spec, THEN spec, THEN mp, OF lk]
  note a = ab [THEN conjunct1] and b = ab [THEN conjunct2]
  from t [THEN conjunct2, THEN conjunct1, THEN spec, THEN spec]
  have c: "\<exists>p1. aggregateMetricsForSpan afterOneSpan ''shop'' span20 = Some p1 \<and>
      last (sliceIndex (latencyBucketCounts p1) (buildKey ''shop'' span20)) =
        last (countsOrNew afterOneSpan (buildKey ''shop'' span20)) \<and>
      last (sliceIndex (latencyBucketCounts p1) (buildKey ''shop'' span20)) = 0"
    .
  show ?thesis
    by (intro conjI reachable_afterOneSpan validOrders_ascending lk a b c
        t [THEN conjunct2, THEN conjunct2])
qed

section \<open>Failing sinks\<close>



























section \<open>Pushing batches\<close>

lemma forEach_reachable:
  assumes step: "\<And>q x. reachable q \<Longrightarrow> \<exists>q'. body q x = Some q' \<and> reachable q'"
  shows "reachable p \<Longrightarrow> \<exists>p'. forEach body p xs = Some p' \<and> reachable p'"
proof (induction xs arbitrary: p)
  case Nil
  then show ?case by simp
next
  case (Cons x xs)
  from step [OF Cons.prems, of x] obtain q where q: "body p x = Some q" "reachable q"
    by blast
  from Cons.IH [OF q(2)] q(1) show ?case by simp
qed

lemma span_step_reachable:
  assumes "reachable q"
  shows "\<exists>q'. aggregateMetricsForSpan q svcName sp = Some q' \<and> reachable q'"
proof -
  from assms have "bucketShape q"
    using reachable_wellFormed by (simp add: wellFormed_def)
  from span_step_total [OF this] obtain q'
    where "aggregateMetricsForSpan q svcName sp = Some q'" by blast
  with assms show ?thesis
    by (blast intro: reachable_span)
qed

lemma aggregateResourceSpans_reachable:
  assumes "reachable q"
  shows "\<exists>q'. aggregateResourceSpans q rs = Some q' \<and> reachable q'"
proof (cases "getServiceName (Resource rs) = ''''")
  case True
  with assms show ?thesis
    by (simp add: aggregateResourceSpans_def)
next
  case False
  have "\<exists>q'. forEach
      (\<lambda>p1 ils. forEach (\<lambda>p2 sp. aggregateMetricsForSpan p2 (getServiceName (Resource rs)) sp)
         p1 (Spans ils))
      q (InstrumentationLibrarySpans rs) = Some q' \<and> reachable q'"
    using assms
    by (intro forEach_reachable) (rule span_step_reachable)
  with False show ?thesis
    by (simp add: aggregateResourceSpans_def)
qed

text \<open>
  In a reachable state \<open>PushSpans\<close> does not panic, returns \<open>nil\<close>, and leads to a reachable
  state: a batch is a sequence of span updates.
\<close>

lemma PushSpans_reachable:
  assumes "reachable p"
  shows "\<exists>p'. PushSpans p req = Some (p', None) \<and> reachable p'"
proof -
  have "\<exists>p'. forEach aggregateResourceSpans p (Batches req) = Some p' \<and> reachable p'"
    using assms by (intro forEach_reachable) (rule aggregateResourceSpans_reachable)
  then show ?thesis
    by (auto simp: PushSpans_def aggregateMetrics_def)
qed

lemma CollectMetrics_reachable:
  assumes "reachable p" and "validOrders ords"
  shows "\<exists>p' out' err. CollectMetrics p ords a ts out = Some (p', out', err) \<and> reachable p'"
proof -
  from assms(1) have "bucketShape p"
    using reachable_wellFormed by (simp add: wellFormed_def)
  from CollectMetrics_total [OF this] obtain out' err
    where "CollectMetrics p ords a ts out = Some (collected p ords, out', err)" by blast
  with assms show ?thesis
    by (blast intro: reachable_Collect)
qed

end
